theory Spec2Isabelle
  imports Main "HOL-Library.AList" "HOL-Library.Char_ord" "HOL-Library.List_Lexorder"
    "HOL-Library.Product_Lexorder"
begin

section \<open>Python strings\<close>

text \<open>
  Strings are lists of 8-bit characters. The case mappings and the white-space test
  follow Python's \<^verbatim>\<open>str.lower\<close>, \<^verbatim>\<open>str.upper\<close> and \<^verbatim>\<open>str.strip\<close> on the code points
  0..255. Three code points whose upper case lies outside that range (0xB5, 0xDF, 0xFF)
  are left unchanged by \<open>upper_char\<close>; none of them can produce a letter of
  \<^verbatim>\<open>TODO\<close>, the only string an upper-cased value is compared with.
\<close>

definition lower_char :: "char \<Rightarrow> char" where
  "lower_char c = (let n = (of_char c :: nat) in
     if (65 \<le> n \<and> n \<le> 90) \<or> (192 \<le> n \<and> n \<le> 222 \<and> n \<noteq> 215)
     then char_of (n + 32) else c)"

definition upper_char :: "char \<Rightarrow> char" where
  "upper_char c = (let n = (of_char c :: nat) in
     if (97 \<le> n \<and> n \<le> 122) \<or> (224 \<le> n \<and> n \<le> 254 \<and> n \<noteq> 247)
     then char_of (n - 32) else c)"

definition lower :: "string \<Rightarrow> string" where
  "lower s = map lower_char s"

definition upper :: "string \<Rightarrow> string" where
  "upper s = map upper_char s"

definition is_space :: "char \<Rightarrow> bool" where
  "is_space c = (let n = (of_char c :: nat) in
     (9 \<le> n \<and> n \<le> 13) \<or> (28 \<le> n \<and> n \<le> 32) \<or> n = 133 \<or> n = 160)"

definition strip :: "string \<Rightarrow> string" where
  "strip s = rev (dropWhile is_space (rev (dropWhile is_space s)))"

text \<open>\<^verbatim>\<open>s.startswith(p)\<close>, \<^verbatim>\<open>s.endswith(p)\<close> and \<^verbatim>\<open>sub in s\<close>.\<close>

definition startswith :: "string \<Rightarrow> string \<Rightarrow> bool" where
  "startswith s p = (take (length p) s = p)"

definition endswith :: "string \<Rightarrow> string \<Rightarrow> bool" where
  "endswith s p = (length p \<le> length s \<and> drop (length s - length p) s = p)"

fun contains :: "string \<Rightarrow> string \<Rightarrow> bool" where
  "contains [] sub = (sub = [])"
| "contains (c # cs) sub = (startswith (c # cs) sub \<or> contains cs sub)"


text \<open>
  \<^verbatim>\<open>s.replace(old, new)\<close>: the occurrences of \<open>old\<close> are replaced from left to right
  without overlap; for the empty \<open>old\<close> Python puts \<open>new\<close> around every character.
\<close>

function replace :: "string \<Rightarrow> string \<Rightarrow> string \<Rightarrow> string" where
  "replace s old new =
     (if old = [] then new @ concat (map (\<lambda>c. c # new) s)
      else if s = [] then []
      else if startswith s old then new @ replace (drop (length old) s) old new
      else hd s # replace (tl s) old new)"
  by pat_completeness auto
termination
  by (relation "measure (\<lambda>(s, old, new). length s)") auto

declare replace.simps [simp del]

text \<open>\<^verbatim>\<open>xml.sax.saxutils.escape\<close> with no extra entities.\<close>

definition escape :: "string \<Rightarrow> string" where
  "escape data = replace (replace (replace data ''&'' ''&amp;'') ''>'' ''&gt;'') ''<'' ''&lt;''"

text \<open>\<^verbatim>\<open>key.split('.')\<close> and \<^verbatim>\<open>'.'.join(parts)\<close>.\<close>

fun split_dot :: "string \<Rightarrow> string list" where
  "split_dot [] = [[]]"
| "split_dot (c # cs) =
     (if c = CHR ''.'' then [] # split_dot cs
      else (case split_dot cs of w # ws \<Rightarrow> (c # w) # ws | [] \<Rightarrow> [[c]]))"

fun join_dot :: "string list \<Rightarrow> string" where
  "join_dot [] = []"
| "join_dot [p] = p"
| "join_dot (p # q # ps) = p @ ''.'' @ join_dot (q # ps)"

definition has_dot :: "string \<Rightarrow> bool" where
  "has_dot key = (CHR ''.'' \<in> set key)"

text \<open>\<^verbatim>\<open>str(n)\<close> for a non-negative integer: its decimal digits.\<close>

definition digit_char :: "nat \<Rightarrow> char" where
  "digit_char d = char_of (48 + d)"

function str_of_nat :: "nat \<Rightarrow> string" where
  "str_of_nat n = (if n < 10 then [digit_char n] else str_of_nat (n div 10) @ [digit_char (n mod 10)])"
  by pat_completeness auto
termination
  by (relation "measure id") auto

declare str_of_nat.simps [simp del]

text \<open>\<^verbatim>\<open>c.isalnum()\<close> on the code points 0..255.\<close>

definition is_alnum :: "char \<Rightarrow> bool" where
  "is_alnum c = (let n = (of_char c :: nat) in
     (48 \<le> n \<and> n \<le> 57) \<or> (65 \<le> n \<and> n \<le> 90) \<or> (97 \<le> n \<and> n \<le> 122)
     \<or> n = 170 \<or> n = 178 \<or> n = 179 \<or> n = 181 \<or> n = 185 \<or> n = 186
     \<or> (188 \<le> n \<and> n \<le> 190) \<or> (192 \<le> n \<and> n \<le> 214) \<or> (216 \<le> n \<and> n \<le> 246)
     \<or> 248 \<le> n)"

section \<open>Python dictionaries\<close>

text \<open>
  A \<^verbatim>\<open>dict\<close> keeps its keys in insertion order and the order is visible (the unused
  keys are written in the order of the old file, the recovered keys in the order of the
  archive), so a dictionary is an association list with distinct keys.
  \<^verbatim>\<open>d[k] = v\<close> is \<open>AList.update\<close>: it overwrites in place or appends.
\<close>

type_synonym ('k, 'v) dict = "('k \<times> 'v) list"

definition dict_set :: "('k, 'v) dict \<Rightarrow> 'k \<Rightarrow> 'v \<Rightarrow> ('k, 'v) dict" where
  "dict_set d k v = AList.update k v d"

definition dict_get :: "('k, 'v) dict \<Rightarrow> 'k \<Rightarrow> 'v \<Rightarrow> 'v" where
  "dict_get d k dflt = (case map_of d k of Some v \<Rightarrow> v | None \<Rightarrow> dflt)"

definition has_key :: "('k, 'v) dict \<Rightarrow> 'k \<Rightarrow> bool" where
  "has_key d k = (map_of d k \<noteq> None)"

text \<open>\<^verbatim>\<open>d[k]\<close>, used by the source only under \<^verbatim>\<open>k in d\<close>.\<close>

definition dict_item :: "('k, 'v) dict \<Rightarrow> 'k \<Rightarrow> 'v" where
  "dict_item d k = the (map_of d k)"

definition dict_keys :: "('k, 'v) dict \<Rightarrow> 'k list" where
  "dict_keys d = map fst d"

section \<open>Parsed documents\<close>

text \<open>
  An \<^verbatim>\<open>xml.etree.ElementTree\<close> element: its tag, its text (\<open>None\<close> when the element
  has no text before its first child) and its children in document order. The default
  parser of \<^verbatim>\<open>ET.parse\<close> drops comments and processing instructions, so every tag is
  a string and the test \<^verbatim>\<open>isinstance(tag, str)\<close> of the source always holds.
\<close>

datatype xml = Elem (tag: string) (etext: "string option") (children: "xml list")

text \<open>
  The source reads \<^verbatim>\<open>element.text\<close> under a truth test only (\<open>None\<close> and the empty
  string are both false): \<open>text_of e \<noteq> []\<close> is that test, \<open>text_of e\<close> the text.
\<close>

definition text_of :: "xml \<Rightarrow> string" where
  "text_of e = (case etext e of None \<Rightarrow> [] | Some t \<Rightarrow> t)"

text \<open>\<^verbatim>\<open>element.find(name)\<close>: the first child with that tag.\<close>

definition find_child :: "xml \<Rightarrow> string \<Rightarrow> xml option" where
  "find_child element name = List.find (\<lambda>c. tag c = name) (children element)"

text \<open>
  What a file is to the program: absent, present but rejected by the parser, or parsed
  to its root element.
\<close>

datatype file_state = Missing | Unparsable | Parsed xml

section \<open>Tag classifier and key path deriver\<close>

record config =
  translatable_tags :: "string list"
  blacklisted_tags :: "string list"

type_synonym entry = "string \<times> string"

text \<open>\<^verbatim>\<open>get_li_name\<close>, the helper inside \<^verbatim>\<open>extract_recursive\<close>.\<close>

definition sanitize :: "string \<Rightarrow> string" where
  "sanitize text =
     filter (\<lambda>c. is_alnum c \<or> c = CHR ''_'' \<or> c = CHR ''-'') (replace text '' '' ''_'')"

definition get_li_name :: "xml \<Rightarrow> string option" where
  "get_li_name element =
     (let from_def =
        (case find_child element ''def'' of
           Some def_node \<Rightarrow>
             if text_of def_node \<noteq> [] then Some (strip (text_of def_node)) else None
         | None \<Rightarrow> None)
      in case find_child element ''customLabel'' of
           Some custom_label \<Rightarrow>
             if text_of custom_label \<noteq> [] then Some (sanitize (strip (text_of custom_label)))
             else from_def
         | None \<Rightarrow> from_def)"

text \<open>The truth test \<^verbatim>\<open>if name:\<close> fails for \<open>None\<close> and for the empty string.\<close>

definition name_of :: "string option \<Rightarrow> string" where
  "name_of name = (case name of None \<Rightarrow> [] | Some n \<Rightarrow> n)"

text \<open>The first loop: \<^verbatim>\<open>li_children_names\<close> and the histogram \<^verbatim>\<open>name_counts\<close>.\<close>

definition li_children_names :: "xml list \<Rightarrow> string option list" where
  "li_children_names cs = map (\<lambda>child. if tag child = ''li'' then get_li_name child else None) cs"

definition count_name :: "string option \<Rightarrow> (string, nat) dict \<Rightarrow> (string, nat) dict" where
  "count_name name name_counts =
     (if name_of name \<noteq> []
      then dict_set name_counts (name_of name) (dict_get name_counts (name_of name) 0 + 1)
      else name_counts)"

definition name_counts_of :: "xml list \<Rightarrow> (string, nat) dict" where
  "name_counts_of cs = fold count_name (li_children_names cs) []"

text \<open>
  The path part of one child and the counters after it: \<^verbatim>\<open>name_indices\<close> and
  \<^verbatim>\<open>li_index\<close>.
\<close>

definition child_part ::
  "(string, nat) dict \<Rightarrow> xml \<Rightarrow> string option \<Rightarrow> (string, nat) dict \<Rightarrow> nat
   \<Rightarrow> string \<times> (string, nat) dict \<times> nat" where
  "child_part name_counts child name name_indices li_index =
     (if tag child = ''li'' then
        (if name_of name \<noteq> [] then
           (if dict_get name_counts (name_of name) 0 > 1 then
              (let idx = dict_get name_indices (name_of name) 0
               in (name_of name @ ''-'' @ str_of_nat idx,
                   dict_set name_indices (name_of name) (idx + 1), li_index + 1))
            else (name_of name, name_indices, li_index + 1))
         else (str_of_nat li_index, name_indices, li_index + 1))
      else (tag child, name_indices, li_index))"

definition is_blacklisted :: "config \<Rightarrow> string \<Rightarrow> bool" where
  "is_blacklisted cfg t = list_ex (\<lambda>b. contains (lower t) (lower b)) (blacklisted_tags cfg)"

definition is_whitelisted :: "config \<Rightarrow> string \<Rightarrow> bool" where
  "is_whitelisted cfg t = list_ex (\<lambda>w. contains (lower t) (lower w)) (translatable_tags cfg)"

text \<open>The entry appended for one child, if any.\<close>

definition emit_entry :: "config \<Rightarrow> string \<Rightarrow> xml \<Rightarrow> string \<Rightarrow> entry list" where
  "emit_entry cfg parent_tag child new_path =
     (let is_rules_list = (parent_tag = ''rulesStrings'' \<and> tag child = ''li'') in
      if text_of child \<noteq> [] \<and> strip (text_of child) \<noteq> [] \<and> children child = [] then
        (if is_blacklisted cfg (tag child) then []
         else if is_whitelisted cfg (tag child) \<or> is_rules_list
         then [(new_path, strip (text_of child))]
         else [])
      else [])"

text \<open>
  \<^verbatim>\<open>extract_recursive\<close>: the second loop is \<open>extract_children\<close>, over the children and
  their precomputed names in step; the list \<^verbatim>\<open>results\<close> the source appends to is the
  value returned.
\<close>

fun extract_recursive :: "config \<Rightarrow> xml \<Rightarrow> string \<Rightarrow> entry list"
and extract_children ::
  "config \<Rightarrow> string \<Rightarrow> (string, nat) dict \<Rightarrow> string \<Rightarrow> xml list \<Rightarrow> string option list
   \<Rightarrow> (string, nat) dict \<Rightarrow> nat \<Rightarrow> entry list" where
  "extract_recursive cfg (Elem node_tag node_text node_children) current_path =
     extract_children cfg node_tag (name_counts_of node_children) current_path
       node_children (li_children_names node_children) [] 0"
| "extract_children cfg parent_tag name_counts current_path [] names name_indices li_index = []"
| "extract_children cfg parent_tag name_counts current_path (child # rest) [] name_indices li_index = []"
| "extract_children cfg parent_tag name_counts current_path (child # rest) (name # names)
     name_indices li_index =
     (if tag child = ''defName''
      then extract_children cfg parent_tag name_counts current_path rest names name_indices li_index
      else
        (case child_part name_counts child name name_indices li_index of
           (part, name_indices', li_index') \<Rightarrow>
             emit_entry cfg parent_tag child (current_path @ ''.'' @ part)
             @ extract_recursive cfg child (current_path @ ''.'' @ part)
             @ extract_children cfg parent_tag name_counts current_path rest names
                 name_indices' li_index'))"

text \<open>\<^verbatim>\<open>process_file\<close>, up to the call of \<^verbatim>\<open>save_translations\<close>.\<close>

definition add_def :: "config \<Rightarrow> xml \<Rightarrow> (string, entry list) dict \<Rightarrow> (string, entry list) dict" where
  "add_def cfg def_node translations_by_type =
     (case find_child def_node ''defName'' of
        None \<Rightarrow> translations_by_type
      | Some def_name_node \<Rightarrow>
          if text_of def_name_node = [] then translations_by_type
          else dict_set translations_by_type (tag def_node)
                 (dict_get translations_by_type (tag def_node) []
                  @ extract_recursive cfg def_node (text_of def_name_node)))"

definition translations_by_type :: "config \<Rightarrow> xml \<Rightarrow> (string, entry list) dict" where
  "translations_by_type cfg xml_root = fold (add_def cfg) (children xml_root) []"

section \<open>Version/path resolver: flattening of the wrapper folder\<close>

text \<open>
  \<^verbatim>\<open>run_extraction\<close>, the block under \<^verbatim>\<open>if simplify_mods:\<close> (the same text for the
  Defs and for the Keyed directories). A relative path is the tuple of its segments
  (\<^verbatim>\<open>Path.parts\<close>); the empty tuple is \<^verbatim>\<open>Path(".")\<close>.

  The loop \<^verbatim>\<open>for i, p in enumerate(parts_out)\<close> stops at the first segment whose
  lower case is \<^verbatim>\<open>mods\<close>; \<open>find_mods\<close> returns its index, \<open>None\<close> standing for
  \<^verbatim>\<open>mods_idx = -1\<close>.
\<close>

fun find_mods :: "string list \<Rightarrow> nat \<Rightarrow> nat option" where
  "find_mods [] i = None"
| "find_mods (p # ps) i = (if lower p = ''mods'' then Some i else find_mods ps (Suc i))"

definition simplify_mods_path :: "string list \<Rightarrow> string list" where
  "simplify_mods_path parts_out =
     (case find_mods parts_out 0 of
        None \<Rightarrow> parts_out
      | Some mods_idx \<Rightarrow>
          if length parts_out > mods_idx + 1
          then take mods_idx parts_out @ drop (mods_idx + 2) parts_out
          else parts_out)"

definition flatten_output_path :: "bool \<Rightarrow> string list \<Rightarrow> string list" where
  "flatten_output_path simplify_mods output_rel_path =
     (if simplify_mods then simplify_mods_path output_rel_path else output_rel_path)"

text \<open>A segment is the wrapper folder when it equals \<^verbatim>\<open>mods\<close> up to case.\<close>

definition is_mods :: "string \<Rightarrow> bool" where
  "is_mods p = (lower p = ''mods'')"

section \<open>Archive index builder\<close>

text \<open>
  The body of the loop \<^verbatim>\<open>for child in root\<close> shared by \<^verbatim>\<open>load_archive_translations\<close>
  and \<^verbatim>\<open>load_single_xml_translations\<close>.
\<close>

definition index_child :: "xml \<Rightarrow> (string, string) dict \<Rightarrow> (string, string) dict" where
  "index_child child translations =
     (if tag child \<noteq> [] \<and> text_of child \<noteq> [] then
        (let text = strip (text_of child) in
         if text \<noteq> [] \<and> upper text \<noteq> ''TODO'' then dict_set translations (tag child) text
         else translations)
      else translations)"

text \<open>A file that is absent or does not parse raises; the exception is caught and the
  index is left as it was.\<close>

definition index_file :: "file_state \<Rightarrow> (string, string) dict \<Rightarrow> (string, string) dict" where
  "index_file file translations =
     (case file of Parsed root \<Rightarrow> fold index_child (children root) translations
      | Missing \<Rightarrow> translations | Unparsable \<Rightarrow> translations)"

text \<open>\<^verbatim>\<open>load_archive_translations\<close>: the argument is the list of the \<^verbatim>\<open>*.xml\<close> files
  under the archive path in the order of \<^verbatim>\<open>rglob\<close> (empty when there is no such path).\<close>

definition load_archive_translations :: "file_state list \<Rightarrow> (string, string) dict" where
  "load_archive_translations files = fold index_file files []"

definition load_single_xml_translations :: "file_state \<Rightarrow> (string, string) dict" where
  "load_single_xml_translations file = index_file file []"

section \<open>Output documents\<close>

text \<open>
  What the writers put into the output file, one item per \<^verbatim>\<open>f.write\<close> (a write of
  a line break followed by a comment is two items). \<open>Element key val\<close> carries the
  value before \<^verbatim>\<open>escape\<close>; \<open>render\<close> gives the text written and \<open>file_content\<close> the
  bytes of the file.
\<close>

datatype out_item = Raw string | Comment string | Element string string

fun render :: "out_item \<Rightarrow> string" where
  "render (Raw s) = s"
| "render (Comment c) = ''  <!--'' @ c @ ''-->\<newline>''"
| "render (Element k v) = ''  <'' @ k @ ''>'' @ escape v @ ''</'' @ k @ ''>\<newline>''"

definition file_content :: "out_item list \<Rightarrow> string" where
  "file_content items = concat (map render items)"

definition xml_declaration :: string where
  \<open>xml_declaration = ''<?xml version="1.0" encoding="UTF-8"?>\<newline>''\<close>

text \<open>The trailing section of the old keys that were not written (both writers).\<close>

definition unused_keys :: "(string, string) dict \<Rightarrow> string list \<Rightarrow> string list" where
  "unused_keys existing_translations used_keys =
     filter (\<lambda>k. k \<notin> set used_keys) (dict_keys existing_translations)"

definition unused_comment :: "(string, string) dict \<Rightarrow> string \<Rightarrow> out_item" where
  "unused_comment existing_translations k =
     Comment ('' <'' @ k @ ''>'' @ dict_item existing_translations k @ ''</'' @ k @ ''> '')"

definition unused_items :: "(string, string) dict \<Rightarrow> string list \<Rightarrow> out_item list" where
  "unused_items existing_translations used_keys =
     (if unused_keys existing_translations used_keys \<noteq> []
      then [Raw ''\<newline>'', Comment '' INUTILIZADO '']
           @ map (unused_comment existing_translations)
               (unused_keys existing_translations used_keys)
      else [])"

definition en_comment :: "string \<Rightarrow> out_item" where
  "en_comment v = Comment ('' EN: '' @ replace v ''--'' ''- -'' @ '' '')"

section \<open>Keyed files\<close>

text \<open>\<^verbatim>\<open>process_keyed_file\<close>: one entry per child with text.\<close>

definition keyed_entries :: "xml \<Rightarrow> entry list" where
  "keyed_entries root =
     concat (map (\<lambda>child. if text_of child \<noteq> [] then [(tag child, strip (text_of child))] else [])
               (children root))"

text \<open>\<^verbatim>\<open>save_keyed_translations\<close>: the old output file, read without \<^verbatim>\<open>strip\<close>.\<close>

definition keyed_existing_child :: "xml \<Rightarrow> (string, string) dict \<Rightarrow> (string, string) dict" where
  "keyed_existing_child child existing_translations =
     (if tag child \<noteq> [] \<and> text_of child \<noteq> []
      then dict_set existing_translations (tag child) (text_of child)
      else existing_translations)"

definition keyed_existing :: "file_state \<Rightarrow> (string, string) dict" where
  "keyed_existing output_file =
     (case output_file of Parsed root \<Rightarrow> fold keyed_existing_child (children root) []
      | Missing \<Rightarrow> [] | Unparsable \<Rightarrow> [])"

definition keyed_value ::
  "(string, string) dict \<Rightarrow> (string, string) dict \<Rightarrow> (string, string) dict \<Rightarrow> string \<Rightarrow> string" where
  "keyed_value existing_translations local_translations archive_translations key =
     (let val_to_write = dict_get existing_translations key ''TODO'' in
      if (val_to_write = ''TODO'' \<or> val_to_write = []) \<and> has_key archive_translations key
      then (if has_key local_translations key then dict_item local_translations key
            else dict_item archive_translations key)
      else val_to_write)"

definition keyed_entry_items ::
  "(string, string) dict \<Rightarrow> (string, string) dict \<Rightarrow> (string, string) dict \<Rightarrow> entry
   \<Rightarrow> out_item list" where
  "keyed_entry_items existing_translations local_translations archive_translations e =
     [Raw ''\<newline>'', en_comment (snd e),
      Element (fst e) (keyed_value existing_translations local_translations archive_translations (fst e))]"

text \<open>
  The document written by \<^verbatim>\<open>save_keyed_translations\<close>. \<open>output_file\<close> is the file at
  the target path before the call, \<open>archive_translations\<close> the global index
  \<^verbatim>\<open>self.global_archive_translations\<close>, \<open>local_file\<close> the file of the same name in the
  mirrored archive directory (\<open>Missing\<close> when there is no archive directory).
\<close>

definition save_keyed_translations ::
  "entry list \<Rightarrow> file_state \<Rightarrow> (string, string) dict \<Rightarrow> file_state \<Rightarrow> out_item list" where
  "save_keyed_translations entries output_file archive_translations local_file =
     (let existing_translations = keyed_existing output_file;
          local_translations = load_single_xml_translations local_file
      in [Raw xml_declaration, Raw ''<LanguageData>\<newline>'']
         @ concat (map (keyed_entry_items existing_translations local_translations
                          archive_translations) entries)
         @ unused_items existing_translations (map fst entries)
         @ [Raw ''\<newline></LanguageData>\<newline>''])"

definition keyed_action :: "file_state \<Rightarrow> string" where
  "keyed_action output_file =
     (if keyed_existing output_file \<noteq> [] then ''Actualizado'' else ''Generado'')"

section \<open>DefInjected files\<close>

text \<open>The optional recovery of the keys that only the archive has.\<close>

definition def_of_key :: "string \<Rightarrow> string" where
  "def_of_key key = (if has_dot key then hd (split_dot key) else key)"

definition extra_entries :: "entry list \<Rightarrow> (string, string) dict \<Rightarrow> (string, string) dict \<Rightarrow> entry list" where
  "extra_entries entries archive_translations english_translations =
     (let present_keys = map fst entries;
          present_defs = map def_of_key present_keys
      in concat (map (\<lambda>(arch_key, arch_val).
           if has_dot arch_key \<and> hd (split_dot arch_key) \<in> set present_defs
              \<and> arch_key \<notin> set present_keys
           then [(arch_key, dict_get english_translations arch_key ''(Implicit/Inherited)'')]
           else []) archive_translations))"

definition recover_implicit ::
  "bool \<Rightarrow> entry list \<Rightarrow> (string, string) dict \<Rightarrow> (string, string) dict \<Rightarrow> entry list" where
  "recover_implicit recover entries archive_translations english_translations =
     (if recover then entries @ extra_entries entries archive_translations english_translations
      else entries)"

text \<open>The renaming of \<^verbatim>\<open>baseDesc\<close> in backstories and the ordering.\<close>

record processed =
  pkey :: string
  pvalue :: string
  def_name :: string
  field :: string

definition process_entry :: "bool \<Rightarrow> entry \<Rightarrow> processed" where
  "process_entry is_backstory e =
     (let key = fst e;
          d = (if has_dot key then hd (split_dot key) else key);
          f = (if has_dot key then join_dot (tl (split_dot key)) else [])
      in if is_backstory \<and> f = ''baseDesc''
         then \<lparr>pkey = d @ ''.'' @ ''description'', pvalue = snd e, def_name = d,
               field = ''description''\<rparr>
         else \<lparr>pkey = key, pvalue = snd e, def_name = d, field = f\<rparr>)"

definition field_priority :: "string \<Rightarrow> nat" where
  "field_priority f =
     (if f = ''label'' then 1 else if f = ''description'' then 2 else if f = ''title'' then 3
      else if f = ''titleShort'' then 4 else if f = ''baseDesc'' then 5
      else if f = ''deathMessage'' then 6 else if f = ''endMessage'' then 7 else 99)"

definition sort_entries :: "processed list \<Rightarrow> processed list" where
  "sort_entries ps = sort_key (\<lambda>x. (def_name x, field_priority (field x))) ps"

definition final_entries ::
  "bool \<Rightarrow> string \<Rightarrow> entry list \<Rightarrow> (string, string) dict \<Rightarrow> (string, string) dict
   \<Rightarrow> processed list" where
  "final_entries recover def_type entries archive_translations english_translations =
     sort_entries (map (process_entry (contains def_type ''Backstory''))
       (recover_implicit recover entries archive_translations english_translations))"

text \<open>The old output file, read with \<^verbatim>\<open>strip\<close>.\<close>

definition def_existing_child :: "xml \<Rightarrow> (string, string) dict \<Rightarrow> (string, string) dict" where
  "def_existing_child child existing_translations =
     (if tag child \<noteq> [] \<and> text_of child \<noteq> []
      then dict_set existing_translations (tag child) (strip (text_of child))
      else existing_translations)"

definition def_existing :: "file_state \<Rightarrow> (string, string) dict" where
  "def_existing output_file =
     (case output_file of Parsed root \<Rightarrow> fold def_existing_child (children root) []
      | Missing \<Rightarrow> [] | Unparsable \<Rightarrow> [])"

text \<open>The value written for one key: the fallback chain of \<^verbatim>\<open>save_translations\<close>.\<close>

definition def_value ::
  "(string, string) dict \<Rightarrow> (string, string) dict \<Rightarrow> (string, string) dict \<Rightarrow> string \<Rightarrow> string" where
  "def_value existing_translations local_translations archive_translations key =
     (let val_to_write = dict_get existing_translations key ''TODO'' in
      if val_to_write = ''TODO'' \<or> val_to_write = [] then
        (if has_key local_translations key then dict_item local_translations key
         else if has_key archive_translations key then dict_item archive_translations key
         else if endswith key ''.baseDesc''
                 \<and> has_key archive_translations (replace key ''.baseDesc'' ''.description'')
         then dict_item archive_translations (replace key ''.baseDesc'' ''.description'')
         else if endswith key ''.description''
                 \<and> has_key archive_translations (replace key ''.description'' ''.baseDesc'')
         then dict_item archive_translations (replace key ''.description'' ''.baseDesc'')
         else if endswith key ''.title''
                 \<and> has_key archive_translations (replace key ''.title'' ''.label'')
         then dict_item archive_translations (replace key ''.title'' ''.label'')
         else if endswith key ''.label''
                 \<and> has_key archive_translations (replace key ''.label'' ''.title'')
         then dict_item archive_translations (replace key ''.label'' ''.title'')
         else val_to_write)
      else val_to_write)"

text \<open>The loop over the entries; \<open>last_def\<close> is \<open>None\<close> before the first entry.\<close>

fun write_entries ::
  "(string, string) dict \<Rightarrow> (string, string) dict \<Rightarrow> (string, string) dict \<Rightarrow> processed list
   \<Rightarrow> string option \<Rightarrow> out_item list" where
  "write_entries existing_translations local_translations archive_translations [] last_def = []"
| "write_entries existing_translations local_translations archive_translations (e # rest) last_def =
     (if (case last_def of Some d \<Rightarrow> d \<noteq> [] \<and> def_of_key (pkey e) \<noteq> d | None \<Rightarrow> False)
      then [Raw ''\<newline>''] else [])
     @ [en_comment (pvalue e),
        Element (pkey e)
          (def_value existing_translations local_translations archive_translations (pkey e))]
     @ write_entries existing_translations local_translations archive_translations rest
         (Some (def_of_key (pkey e)))"

text \<open>
  The document written by \<^verbatim>\<open>save_translations\<close> for one definition type with a
  non-empty entry list. \<open>output_file\<close> is the file at the target path before the call,
  \<open>local_file\<close> the file of the same type and name in the mirrored archive directory.
\<close>

definition save_translations ::
  "bool \<Rightarrow> string \<Rightarrow> entry list \<Rightarrow> file_state \<Rightarrow> (string, string) dict \<Rightarrow> (string, string) dict
   \<Rightarrow> file_state \<Rightarrow> out_item list" where
  "save_translations recover def_type entries output_file archive_translations
     english_translations local_file =
     (let local_translations = load_single_xml_translations local_file;
          es = final_entries recover def_type entries archive_translations english_translations;
          existing_translations = def_existing output_file
      in [Raw xml_declaration, Raw ''<LanguageData>\<newline>'', Raw ''  \<newline>'']
         @ write_entries existing_translations local_translations archive_translations es None
         @ unused_items existing_translations (map pkey es)
         @ [Raw ''  \<newline>'', Raw ''</LanguageData>''])"

definition def_action :: "file_state \<Rightarrow> string" where
  "def_action output_file =
     (if def_existing output_file \<noteq> [] then ''Actualizado'' else ''Generado'')"

section \<open>Notions used to state and to prove the properties\<close>

text \<open>
  An archive key can be recovered for a list of fresh entries when it has a dot, the
  part before its first dot is the part before the first dot of a fresh key, and it is
  not a fresh key itself.
\<close>

definition recoverable :: "entry list \<Rightarrow> string \<Rightarrow> bool" where
  "recoverable entries k =
     (has_dot k
      \<and> takeWhile (\<lambda>c. c \<noteq> CHR ''.'') k \<in> (\<lambda>e. takeWhile (\<lambda>c. c \<noteq> CHR ''.'') (fst e)) ` set entries
      \<and> k \<notin> fst ` set entries)"

text \<open>The old output file parses and its root has a child with a tag and a text.\<close>

definition has_text_child :: "file_state \<Rightarrow> bool" where
  "has_text_child f =
     (case f of Parsed root \<Rightarrow> list_ex (\<lambda>c. tag c \<noteq> [] \<and> text_of c \<noteq> []) (children root)
      | Missing \<Rightarrow> False | Unparsable \<Rightarrow> False)"

text \<open>
  The substitute keys tried in the global archive for a key, in the order of the source:
  each is the key with every occurrence of one field name replaced by its synonym, and
  is tried only when the key ends with that field name.
\<close>

definition synonyms :: "string \<Rightarrow> string list" where
  "synonyms key =
     (if endswith key ''.baseDesc'' then [replace key ''.baseDesc'' ''.description''] else [])
     @ (if endswith key ''.description'' then [replace key ''.description'' ''.baseDesc''] else [])
     @ (if endswith key ''.title'' then [replace key ''.title'' ''.label''] else [])
     @ (if endswith key ''.label'' then [replace key ''.label'' ''.title''] else [])"

text \<open>
  The two writers resolve a value in the same way: the value read from the old file is
  kept unless it is \<^verbatim>\<open>TODO\<close> or empty, and is then replaced by the value the archives
  give, if any. \<open>def_chain\<close> and \<open>keyed_chain\<close> are what the archives give in
  \<^verbatim>\<open>save_translations\<close> and in \<^verbatim>\<open>save_keyed_translations\<close>; the writers are shown
  below to compute \<open>resolve\<close> of them.
\<close>

definition resolve :: "string option \<Rightarrow> (string, string) dict \<Rightarrow> string \<Rightarrow> string" where
  "resolve c existing_translations key =
     (let val_to_write = dict_get existing_translations key ''TODO'' in
      if val_to_write = ''TODO'' \<or> val_to_write = []
      then (case c of Some v \<Rightarrow> v | None \<Rightarrow> val_to_write)
      else val_to_write)"

definition def_chain :: "(string, string) dict \<Rightarrow> (string, string) dict \<Rightarrow> string \<Rightarrow> string option" where
  "def_chain local_translations archive_translations key =
     (if has_key local_translations key then Some (dict_item local_translations key)
      else if has_key archive_translations key then Some (dict_item archive_translations key)
      else map_option (dict_item archive_translations)
             (List.find (has_key archive_translations) (synonyms key)))"

definition keyed_chain :: "(string, string) dict \<Rightarrow> (string, string) dict \<Rightarrow> string \<Rightarrow> string option" where
  "keyed_chain local_translations archive_translations key =
     (if has_key archive_translations key
      then (if has_key local_translations key then Some (dict_item local_translations key)
            else Some (dict_item archive_translations key))
      else None)"

text \<open>An element with a given tag and text, as the parser returns it.\<close>

definition live :: "string \<Rightarrow> string \<Rightarrow> xml" where
  "live k v = Elem k (if v = [] then None else Some v) []"

text \<open>
  The path parts that the second loop of \<^verbatim>\<open>extract_recursive\<close> gives to the children
  of one node, in order (\<open>None\<close> for a \<^verbatim>\<open>defName\<close> child, which the loop skips).
  \<open>child_parts\<close> threads the counters exactly as \<open>extract_children\<close> does, and
  \<open>child_entries\<close> is what the loop appends for the child at one position; the
  entries of a node are shown below to be the concatenation of the \<open>child_entries\<close>
  of its positions.
\<close>

fun child_parts ::
  "(string, nat) dict \<Rightarrow> xml list \<Rightarrow> string option list \<Rightarrow> (string, nat) dict \<Rightarrow> nat
   \<Rightarrow> string option list" where
  "child_parts name_counts [] names name_indices li_index = []"
| "child_parts name_counts (child # rest) [] name_indices li_index = []"
| "child_parts name_counts (child # rest) (name # names) name_indices li_index =
     (if tag child = ''defName''
      then None # child_parts name_counts rest names name_indices li_index
      else
        (case child_part name_counts child name name_indices li_index of
           (part, name_indices', li_index') \<Rightarrow>
             Some part # child_parts name_counts rest names name_indices' li_index'))"

definition sibling_parts :: "xml list \<Rightarrow> string option list" where
  "sibling_parts cs = child_parts (name_counts_of cs) cs (li_children_names cs) [] 0"

definition part_entries :: "config \<Rightarrow> string \<Rightarrow> string \<Rightarrow> xml \<Rightarrow> string option \<Rightarrow> entry list" where
  "part_entries cfg parent_tag current_path child p =
     (case p of None \<Rightarrow> []
      | Some part \<Rightarrow>
          emit_entry cfg parent_tag child (current_path @ ''.'' @ part)
          @ extract_recursive cfg child (current_path @ ''.'' @ part))"

definition child_entries :: "config \<Rightarrow> string \<Rightarrow> string \<Rightarrow> xml list \<Rightarrow> nat \<Rightarrow> entry list" where
  "child_entries cfg parent_tag current_path cs i =
     part_entries cfg parent_tag current_path (cs ! i) (sibling_parts cs ! i)"

text \<open>
  The display name of a list item (empty when it has none), the number of earlier list
  items with a given display name, and the number of earlier list items.
\<close>

definition li_name :: "xml \<Rightarrow> string" where
  "li_name c = name_of (get_li_name c)"

definition same_before :: "xml list \<Rightarrow> nat \<Rightarrow> string \<Rightarrow> nat" where
  "same_before cs i n = length (filter (\<lambda>c. tag c = ''li'' \<and> li_name c = n) (take i cs))"

definition li_before :: "xml list \<Rightarrow> nat \<Rightarrow> nat" where
  "li_before cs i = length (filter (\<lambda>c. tag c = ''li'') (take i cs))"

text \<open>Reading a decimal numeral back.\<close>

definition nat_of_str :: "string \<Rightarrow> nat" where
  "nat_of_str s = foldl (\<lambda>acc c. 10 * acc + (of_char c - 48)) 0 s"

text \<open>The part of a list item with display name \<open>n\<close>, for given counter values.\<close>

definition li_part :: "(string, nat) dict \<Rightarrow> string \<Rightarrow> nat \<Rightarrow> nat \<Rightarrow> string" where
  "li_part nc n a b =
     (if n \<noteq> [] then (if dict_get nc n 0 > 1 then n @ ''-'' @ str_of_nat a else n)
      else str_of_nat b)"

text \<open>
  The value that an old output file holds for a key, as both writers see it: the text
  of the last child of the root with that tag and a text (a later element overwrites an
  earlier one in the dictionary). There is none when the file is absent or does not
  parse, or when no such child exists.
\<close>

definition last_text :: "file_state \<Rightarrow> string \<Rightarrow> string option" where
  "last_text f key =
     (case f of
        Parsed root \<Rightarrow>
          (case filter (\<lambda>c. tag c = key \<and> text_of c \<noteq> []) (children root) of
             [] \<Rightarrow> None
           | c # cs \<Rightarrow> if key = [] then None else Some (text_of (last (c # cs))))
      | Missing \<Rightarrow> None
      | Unparsable \<Rightarrow> None)"






fun after_dashes :: "string \<Rightarrow> string option" where
  "after_dashes (a # b # cs) =
     (if a = CHR ''-'' \<and> b = CHR ''-'' then Some cs else after_dashes (b # cs))"
| "after_dashes [a] = None"
| "after_dashes [] = None"




text \<open>
  The elements that a document holds outside comments, with the values before
  \<^verbatim>\<open>escape\<close>, and the condition that a file is the document read back without
  change: it parses, and the children of its root are exactly these elements, in order
  and with these values as texts. This is a condition on what \<^verbatim>\<open>ET.parse\<close> returns,
  used as a hypothesis below; it is not a model of the parser. It fails when the
  document is not well formed (a source text with three hyphens in a row leaves two in
  its comment) and when the parser changes a value (a carriage return is read as a line
  feed).
\<close>

definition live_elements :: "out_item list \<Rightarrow> (string \<times> string) list" where
  "live_elements items =
     concat (map (\<lambda>it. case it of Element k v \<Rightarrow> [(k, v)] | Raw s \<Rightarrow> [] | Comment c \<Rightarrow> [])
               items)"

definition reads_back :: "out_item list \<Rightarrow> file_state \<Rightarrow> bool" where
  "reads_back items f =
     (case f of
        Parsed root \<Rightarrow> map (\<lambda>c. (tag c, text_of c)) (children root) = live_elements items
      | Missing \<Rightarrow> False
      | Unparsable \<Rightarrow> False)"

section \<open>Properties of the path resolver\<close>

lemma find_mods_none: "list_all (\<lambda>p. \<not> is_mods p) ps \<Longrightarrow> find_mods ps i = None"
  by (induction ps arbitrary: i) (auto simp: is_mods_def)

lemma find_mods_first:
  "list_all (\<lambda>p. \<not> is_mods p) pre \<Longrightarrow> is_mods m \<Longrightarrow>
   find_mods (pre @ m # post) i = Some (i + length pre)"
  by (induction pre arbitrary: i) (auto simp: is_mods_def)

text \<open>
  C9, as the claim states it, fails: only the first wrapper segment is looked at. In
  \<^verbatim>\<open>Mods/A/Mods/B\<close> the second \<^verbatim>\<open>Mods\<close> and its follower stay, and a wrapper segment
  that ends the path is not removed either.
\<close>

theorem flatten_every_mods_counterexample:
  "flatten_output_path True [''Mods'', ''A'', ''Mods'', ''B''] = [''Mods'', ''B'']
   \<and> is_mods ''Mods''
   \<and> flatten_output_path True [''1.5'', ''mods''] = [''1.5'', ''mods'']"
  by code_simp

text \<open>
  C9 (amended): with the flatten option, the first segment that equals \<^verbatim>\<open>mods\<close> up to
  case is removed together with the segment after it, when it has one; a path without
  such a segment, or whose first such segment is its last segment, is returned
  unchanged; without the option the path is unchanged. The result is a function of the
  segment tuple alone.
\<close>

theorem flatten_first_mods:
  "list_all (\<lambda>p. \<not> is_mods p) pre \<Longrightarrow>
     (is_mods m \<longrightarrow> flatten_output_path True (pre @ m # nxt # post) = pre @ post)
   \<and> (is_mods m \<longrightarrow> flatten_output_path True (pre @ [m]) = pre @ [m])
   \<and> flatten_output_path True pre = pre
   \<and> flatten_output_path False parts = parts"
proof (intro conjI impI)
  assume pre: "list_all (\<lambda>p. \<not> is_mods p) pre"
  show "flatten_output_path True pre = pre"
    using find_mods_none [OF pre, of 0]
    by (simp add: flatten_output_path_def simplify_mods_path_def)
  show "flatten_output_path False parts = parts"
    by (simp add: flatten_output_path_def)
  assume m: "is_mods m"
  show "flatten_output_path True (pre @ m # nxt # post) = pre @ post"
    using find_mods_first [OF pre m, of "nxt # post" 0]
    by (simp add: flatten_output_path_def simplify_mods_path_def)
  show "flatten_output_path True (pre @ [m]) = pre @ [m]"
    using find_mods_first [OF pre m, of "[]" 0]
    by (simp add: flatten_output_path_def simplify_mods_path_def)
qed

theorem flatten_first_mods_witness:
  "flatten_output_path True ([''1.5''] @ ''MODS'' # ''Core'' # [''Extra'']) = [''1.5''] @ [''Extra'']
   \<and> flatten_output_path True ([''1.5''] @ [''MODS'']) = [''1.5''] @ [''MODS'']
   \<and> flatten_output_path True [''1.5''] = [''1.5'']"
proof -
  have pre: "list_all (\<lambda>p. \<not> is_mods p) [''1.5'']" by code_simp
  have m: "is_mods ''MODS''" by code_simp
  show ?thesis
    using flatten_first_mods [OF pre, of "''MODS''" "''Core''" "[''Extra'']" "[]"] m
    by simp
qed

section \<open>Dictionaries and strings: basic facts\<close>

lemma map_of_dict_set: "map_of (dict_set d k v) = (map_of d)(k \<mapsto> v)"
  by (simp add: dict_set_def update_conv')

lemma dict_set_not_empty: "dict_set d k v \<noteq> []"
  by (cases d) (auto simp: dict_set_def)

lemma contains_iff: "contains s sub \<longleftrightarrow> (\<exists>pre post. s = pre @ sub @ post)"
proof (induction s)
  case Nil
  then show ?case by auto
next
  case (Cons c cs)
  show ?case
  proof
    assume "contains (c # cs) sub"
    then consider "startswith (c # cs) sub" | "contains cs sub" by auto
    then show "\<exists>pre post. c # cs = pre @ sub @ post"
    proof cases
      case 1
      then have "c # cs = [] @ sub @ drop (length sub) (c # cs)"
        unfolding startswith_def by (metis append_Nil append_take_drop_id)
      then show ?thesis by blast
    next
      case 2
      then obtain pre post where "cs = pre @ sub @ post" using Cons.IH by blast
      then have "c # cs = (c # pre) @ sub @ post" by simp
      then show ?thesis by blast
    qed
  next
    assume "\<exists>pre post. c # cs = pre @ sub @ post"
    then obtain pre post where e: "c # cs = pre @ sub @ post" by blast
    show "contains (c # cs) sub"
    proof (cases pre)
      case Nil
      with e have "startswith (c # cs) sub" by (simp add: startswith_def)
      then show ?thesis by simp
    next
      case (Cons p pre')
      with e have "cs = pre' @ sub @ post" by simp
      then have "contains cs sub" using Cons.IH by blast
      then show ?thesis by simp
    qed
  qed
qed

section \<open>Tag classifier\<close>

lemma extract_leaf: "children child = [] \<Longrightarrow> extract_recursive cfg child p = []"
  by (cases child) simp

text \<open>
  C4: a child whose tag contains a blacklist entry as a substring, up to case, never
  yields an entry, whatever the whitelist and the parent are (so also for a list item
  of \<^verbatim>\<open>rulesStrings\<close> and for a tag the whitelist matches); when it is a leaf, the
  loop over the children goes on as if it had produced nothing.
\<close>

theorem blacklist_precedence:
  assumes "b \<in> set (blacklisted_tags cfg)"
    and "lower (tag child) = pre @ lower b @ post"
  shows "emit_entry cfg parent_tag child new_path = []
    \<and> (children child = [] \<longrightarrow>
         extract_children cfg parent_tag name_counts current_path (child # rest) (name # names)
           name_indices li_index
         = extract_children cfg parent_tag name_counts current_path rest names
             (fst (snd (child_part name_counts child name name_indices li_index)))
             (snd (snd (child_part name_counts child name name_indices li_index))))"
proof -
  have "contains (lower (tag child)) (lower b)"
    using assms(2) contains_iff by blast
  then have bl: "is_blacklisted cfg (tag child)"
    using assms(1) by (auto simp: is_blacklisted_def list_ex_iff)
  then have em: "emit_entry cfg parent_tag child new_path = []" for new_path
    by (simp add: emit_entry_def)
  show ?thesis
  proof (intro conjI impI)
    show "emit_entry cfg parent_tag child new_path = []" by (rule em)
    assume leaf: "children child = []"
    show "extract_children cfg parent_tag name_counts current_path (child # rest) (name # names)
           name_indices li_index
         = extract_children cfg parent_tag name_counts current_path rest names
             (fst (snd (child_part name_counts child name name_indices li_index)))
             (snd (snd (child_part name_counts child name name_indices li_index)))"
    proof (cases "tag child = ''defName''")
      case True
      then show ?thesis by (simp add: child_part_def)
    next
      case False
      then show ?thesis
        by (simp add: em extract_leaf [OF leaf] split: prod.splits)
    qed
  qed
qed


theorem blacklist_precedence_witness:
  "emit_entry \<lparr>translatable_tags = [''li''], blacklisted_tags = [''LI'']\<rparr> ''rulesStrings''
     (Elem ''li'' (Some ''hello'') []) ''D.0'' = []
   \<and> extract_children \<lparr>translatable_tags = [''li''], blacklisted_tags = [''LI'']\<rparr> ''rulesStrings''
       [] ''D'' [Elem ''li'' (Some ''hello'') []] [None] [] 0 = []"
proof -
  have b: "''LI'' \<in> set (blacklisted_tags \<lparr>translatable_tags = [''li''], blacklisted_tags = [''LI'']\<rparr>)"
    by simp
  have l: "lower (tag (Elem ''li'' (Some ''hello'') [])) = [] @ lower ''LI'' @ []"
    by code_simp
  show ?thesis
    using blacklist_precedence [OF b l, of "''rulesStrings''" "''D.0''" "[]" "''D''" "[]" None "[]" "[]" 0]
    by simp
qed

section \<open>Recovery of implicit keys\<close>

lemma split_dot_not_Nil: "split_dot k \<noteq> []"
  by (induction k) (auto split: list.splits)

lemma hd_split_dot: "hd (split_dot k) = takeWhile (\<lambda>c. c \<noteq> CHR ''.'') k"
  using split_dot_not_Nil by (induction k) (auto split: list.splits)

lemma def_of_key_takeWhile: "def_of_key k = takeWhile (\<lambda>c. c \<noteq> CHR ''.'') k"
proof (cases "has_dot k")
  case True
  then show ?thesis by (simp add: def_of_key_def hd_split_dot)
next
  case False
  then have "\<forall>c\<in>set k. c \<noteq> CHR ''.''" by (auto simp: has_dot_def)
  then have tw: "takeWhile (\<lambda>c. c \<noteq> CHR ''.'') k = k" by (simp add: takeWhile_eq_all_conv)
  have "def_of_key k = k" using False by (simp add: def_of_key_def)
  then show ?thesis by (simp only: tw)
qed

lemma extra_entries_eq:
  "extra_entries entries archive english =
     map (\<lambda>k. (k, dict_get english k ''(Implicit/Inherited)''))
       (filter (recoverable entries) (map fst archive))"
proof -
  have defs: "set (map def_of_key (map fst entries))
      = (\<lambda>e. takeWhile (\<lambda>c. c \<noteq> CHR ''.'') (fst e)) ` set entries"
    by (auto simp: def_of_key_takeWhile)
  have "concat (map (\<lambda>(arch_key, arch_val).
           if has_dot arch_key \<and> hd (split_dot arch_key) \<in> D \<and> arch_key \<notin> K
           then [(arch_key, dict_get english arch_key ''(Implicit/Inherited)'')]
           else []) archive)
      = map (\<lambda>k. (k, dict_get english k ''(Implicit/Inherited)''))
          (filter (\<lambda>k. has_dot k \<and> hd (split_dot k) \<in> D \<and> k \<notin> K) (map fst archive))" for D K
    by (induction archive) auto
  then show ?thesis
    unfolding extra_entries_def Let_def defs recoverable_def
    by (simp add: hd_split_dot)
qed

text \<open>
  C7: with the option, the entries added are exactly the archive keys that are
  \<open>recoverable\<close>, in the order of the archive, each with the English text of that
  key when the English index has it and the marker \<^verbatim>\<open>(Implicit/Inherited)\<close> otherwise;
  without the option nothing is added.
\<close>

theorem implicit_key_recovery:
  "recover_implicit True entries archive english
     = entries @ map (\<lambda>k. (k, case map_of english k of Some t \<Rightarrow> t | None \<Rightarrow> ''(Implicit/Inherited)''))
                   (filter (recoverable entries) (map fst archive))
   \<and> recover_implicit False entries archive english = entries"
  by (simp add: recover_implicit_def extra_entries_eq dict_get_def)

section \<open>Action reported for a file\<close>

lemma fold_def_existing_nonempty:
  "fold def_existing_child cs acc \<noteq> [] \<longleftrightarrow>
     acc \<noteq> [] \<or> (\<exists>c\<in>set cs. tag c \<noteq> [] \<and> text_of c \<noteq> [])"
  by (induction cs arbitrary: acc) (auto simp: def_existing_child_def dict_set_not_empty)

lemma fold_keyed_existing_nonempty:
  "fold keyed_existing_child cs acc \<noteq> [] \<longleftrightarrow>
     acc \<noteq> [] \<or> (\<exists>c\<in>set cs. tag c \<noteq> [] \<and> text_of c \<noteq> [])"
  by (induction cs arbitrary: acc) (auto simp: keyed_existing_child_def dict_set_not_empty)

text \<open>
  C8, as the claim states it, fails: the action is decided by the dictionary read from
  the old file, not by the existence of the file. An old file without entries, or one
  that does not parse, is reported as generated.
\<close>

theorem action_counterexample:
  "def_action (Parsed (Elem ''LanguageData'' None [])) = ''Generado''
   \<and> keyed_action (Parsed (Elem ''LanguageData'' None [])) = ''Generado''
   \<and> def_action Unparsable = ''Generado''"
  by code_simp

text \<open>
  C8 (amended): the action is \<^verbatim>\<open>Actualizado\<close> exactly when the old output file
  parses and has at least one child with a text, and \<^verbatim>\<open>Generado\<close> otherwise, in
  particular when there is no old file.
\<close>

theorem action_classification:
  "def_action f = (if has_text_child f then ''Actualizado'' else ''Generado'')
   \<and> keyed_action f = (if has_text_child f then ''Actualizado'' else ''Generado'')
   \<and> \<not> has_text_child Missing"
  by (cases f)
     (simp_all add: def_action_def keyed_action_def def_existing_def keyed_existing_def
        has_text_child_def fold_def_existing_nonempty fold_keyed_existing_nonempty list_ex_iff)

section \<open>The documents written\<close>

lemma dict_item_Some: "map_of d k = Some v \<Longrightarrow> dict_item d k = v"
  by (simp add: dict_item_def)

lemma dict_keys_map_of: "map_of d k = Some v \<Longrightarrow> k \<in> set (dict_keys d)"
  by (auto simp: dict_keys_def dest: map_of_SomeD intro: rev_image_eqI)

lemma def_value_kept:
  "map_of existing key = Some v \<Longrightarrow> v \<noteq> [] \<Longrightarrow> v \<noteq> ''TODO'' \<Longrightarrow>
   def_value existing local_tr archive key = v"
  by (simp add: def_value_def dict_get_def)

lemma keyed_value_kept:
  "map_of existing key = Some v \<Longrightarrow> v \<noteq> [] \<Longrightarrow> v \<noteq> ''TODO'' \<Longrightarrow>
   keyed_value existing local_tr archive key = v"
  by (simp add: keyed_value_def dict_get_def)

lemma write_entries_elements:
  "Element k w \<in> set (write_entries ex lo gl es last_def) \<longleftrightarrow>
     k \<in> pkey ` set es \<and> w = def_value ex lo gl k"
  by (induction es arbitrary: last_def) (auto simp: en_comment_def)

lemma unused_items_no_element: "Element k w \<notin> set (unused_items ex used)"
  by (auto simp: unused_items_def unused_comment_def)

lemma save_translations_elements:
  "Element k w \<in> set (save_translations recover def_type entries output_file archive english local_file)
   \<longleftrightarrow> k \<in> pkey ` set (final_entries recover def_type entries archive english)
       \<and> w = def_value (def_existing output_file) (load_single_xml_translations local_file) archive k"
  by (simp add: save_translations_def Let_def write_entries_elements unused_items_no_element)

lemma keyed_items_elements:
  "(\<exists>e\<in>set entries. Element k w \<in> set (keyed_entry_items ex lo gl e)) \<longleftrightarrow>
     k \<in> fst ` set entries \<and> w = keyed_value ex lo gl k"
  by (auto simp: keyed_entry_items_def en_comment_def)

lemma save_keyed_elements:
  "Element k w \<in> set (save_keyed_translations entries output_file archive local_file)
   \<longleftrightarrow> k \<in> fst ` set entries
       \<and> w = keyed_value (keyed_existing output_file) (load_single_xml_translations local_file) archive k"
  by (simp add: save_keyed_translations_def Let_def keyed_items_elements unused_items_no_element)

lemma unused_comment_in:
  assumes "map_of ex key = Some v" "key \<notin> set used"
  shows "Comment ('' <'' @ key @ ''>'' @ v @ ''</'' @ key @ ''> '')
           \<in> set (map (unused_comment ex) (unused_keys ex used))"
    and "unused_items ex used
           = [Raw ''\<newline>'', Comment '' INUTILIZADO ''] @ map (unused_comment ex) (unused_keys ex used)"
proof -
  have k: "key \<in> set (unused_keys ex used)"
    using assms dict_keys_map_of by (auto simp: unused_keys_def)
  have "unused_comment ex key = Comment ('' <'' @ key @ ''>'' @ v @ ''</'' @ key @ ''> '')"
    using assms(1) by (simp add: unused_comment_def dict_item_Some)
  then show "Comment ('' <'' @ key @ ''>'' @ v @ ''</'' @ key @ ''> '')
           \<in> set (map (unused_comment ex) (unused_keys ex used))"
    using k by (metis image_eqI set_map)
  from k have "unused_keys ex used \<noteq> []" by auto
  then show "unused_items ex used
           = [Raw ''\<newline>'', Comment '' INUTILIZADO ''] @ map (unused_comment ex) (unused_keys ex used)"
    by (simp add: unused_items_def)
qed

lemma unused_in_save_translations:
  assumes "map_of (def_existing output_file) key = Some v"
    and "key \<notin> pkey ` set (final_entries recover def_type entries archive english)"
  shows "\<exists>pre post.
      save_translations recover def_type entries output_file archive english local_file
        = pre @ [Raw ''\<newline>'', Comment '' INUTILIZADO ''] @ post
      \<and> Comment ('' <'' @ key @ ''>'' @ v @ ''</'' @ key @ ''> '') \<in> set post
      \<and> (\<forall>k w. Element k w \<notin> set post)"
proof -
  let ?ex = "def_existing output_file"
  let ?used = "map pkey (final_entries recover def_type entries archive english)"
  let ?post = "map (unused_comment ?ex) (unused_keys ?ex ?used) @ [Raw ''  \<newline>'', Raw ''</LanguageData>'']"
  have u: "key \<notin> set ?used" using assms(2) by simp
  note a = unused_comment_in [OF assms(1) u]
  have "save_translations recover def_type entries output_file archive english local_file
      = ([Raw xml_declaration, Raw ''<LanguageData>\<newline>'', Raw ''  \<newline>'']
         @ write_entries ?ex (load_single_xml_translations local_file) archive
             (final_entries recover def_type entries archive english) None)
        @ [Raw ''\<newline>'', Comment '' INUTILIZADO ''] @ ?post"
    by (simp add: save_translations_def Let_def a(2))
  moreover have "Comment ('' <'' @ key @ ''>'' @ v @ ''</'' @ key @ ''> '') \<in> set ?post"
    using a(1) by simp
  moreover have "\<forall>k w. Element k w \<notin> set ?post"
    by (auto simp: unused_comment_def)
  ultimately show ?thesis by blast
qed

lemma unused_in_save_keyed:
  assumes "map_of (keyed_existing output_file) key = Some v"
    and "key \<notin> fst ` set entries"
  shows "\<exists>pre post.
      save_keyed_translations entries output_file archive local_file
        = pre @ [Raw ''\<newline>'', Comment '' INUTILIZADO ''] @ post
      \<and> Comment ('' <'' @ key @ ''>'' @ v @ ''</'' @ key @ ''> '') \<in> set post
      \<and> (\<forall>k w. Element k w \<notin> set post)"
proof -
  let ?ex = "keyed_existing output_file"
  let ?used = "map fst entries"
  let ?post = "map (unused_comment ?ex) (unused_keys ?ex ?used) @ [Raw ''\<newline></LanguageData>\<newline>'']"
  have u: "key \<notin> set ?used" using assms(2) by simp
  note a = unused_comment_in [OF assms(1) u]
  have "save_keyed_translations entries output_file archive local_file
      = ([Raw xml_declaration, Raw ''<LanguageData>\<newline>'']
         @ concat (map (keyed_entry_items ?ex (load_single_xml_translations local_file) archive) entries))
        @ [Raw ''\<newline>'', Comment '' INUTILIZADO ''] @ ?post"
    by (simp add: save_keyed_translations_def Let_def a(2))
  moreover have "Comment ('' <'' @ key @ ''>'' @ v @ ''</'' @ key @ ''> '') \<in> set ?post"
    using a(1) by simp
  moreover have "\<forall>k w. Element k w \<notin> set ?post"
    by (auto simp: unused_comment_def)
  ultimately show ?thesis by blast
qed

section \<open>Placeholder detection and the fallback chain\<close>

lemma set_dict_set: "set (dict_set d k v) \<subseteq> insert (k, v) (set d)"
  unfolding dict_set_def by (induction d) auto

lemma index_child_values:
  assumes "\<forall>e\<in>set tr. snd e \<noteq> [] \<and> upper (snd e) \<noteq> ''TODO''"
  shows "\<forall>e\<in>set (index_child c tr). snd e \<noteq> [] \<and> upper (snd e) \<noteq> ''TODO''"
proof (cases "index_child c tr = tr")
  case True
  then show ?thesis using assms by simp
next
  case False
  then have i: "index_child c tr = dict_set tr (tag c) (strip (text_of c))"
    and t: "strip (text_of c) \<noteq> []" "upper (strip (text_of c)) \<noteq> ''TODO''"
    unfolding index_child_def Let_def by (simp_all split: if_splits)
  show ?thesis
  proof
    fix e assume "e \<in> set (index_child c tr)"
    then have "e = (tag c, strip (text_of c)) \<or> e \<in> set tr"
      using set_dict_set [of tr "tag c" "strip (text_of c)"] unfolding i by blast
    then show "snd e \<noteq> [] \<and> upper (snd e) \<noteq> ''TODO''"
      using t assms by fastforce
  qed
qed

lemma fold_index_child_values:
  "\<forall>e\<in>set tr. snd e \<noteq> [] \<and> upper (snd e) \<noteq> ''TODO'' \<Longrightarrow>
   \<forall>e\<in>set (fold index_child cs tr). snd e \<noteq> [] \<and> upper (snd e) \<noteq> ''TODO''"
proof (induction cs arbitrary: tr)
  case Nil
  then show ?case by simp
next
  case (Cons c cs)
  from Cons.IH [OF index_child_values [OF Cons.prems]] show ?case by simp
qed

lemma index_file_values:
  assumes "\<forall>e\<in>set tr. snd e \<noteq> [] \<and> upper (snd e) \<noteq> ''TODO''"
  shows "\<forall>e\<in>set (index_file f tr). snd e \<noteq> [] \<and> upper (snd e) \<noteq> ''TODO''"
proof (cases f)
  case (Parsed root)
  have "index_file f tr = fold index_child (children root) tr"
    by (simp add: index_file_def Parsed)
  then show ?thesis
    using fold_index_child_values [OF assms, of "children root"] by (simp only:)
next
  case Missing
  have "index_file f tr = tr" by (simp add: index_file_def Missing)
  then show ?thesis using assms by (simp only:)
next
  case Unparsable
  have "index_file f tr = tr" by (simp add: index_file_def Unparsable)
  then show ?thesis using assms by (simp only:)
qed

lemma fold_index_file_values:
  "\<forall>e\<in>set tr. snd e \<noteq> [] \<and> upper (snd e) \<noteq> ''TODO'' \<Longrightarrow>
   \<forall>e\<in>set (fold index_file fs tr). snd e \<noteq> [] \<and> upper (snd e) \<noteq> ''TODO''"
proof (induction fs arbitrary: tr)
  case Nil
  then show ?case by simp
next
  case (Cons f fs)
  from Cons.IH [OF index_file_values [OF Cons.prems]] show ?case by simp
qed

lemma archive_values:
  "\<forall>e\<in>set (load_archive_translations files). snd e \<noteq> [] \<and> upper (snd e) \<noteq> ''TODO''"
  unfolding load_archive_translations_def by (rule fold_index_file_values) simp

lemma single_values:
  "\<forall>e\<in>set (load_single_xml_translations f). snd e \<noteq> [] \<and> upper (snd e) \<noteq> ''TODO''"
  unfolding load_single_xml_translations_def by (rule index_file_values) simp

text \<open>
  C10: the index builders drop a value whose upper case is \<^verbatim>\<open>TODO\<close>, so no archive
  value is the placeholder in any case; the merge compares with \<^verbatim>\<open>TODO\<close> exactly,
  so an old value that is the placeholder only up to case is written as it is and the
  archives are not consulted, in both writers.
\<close>

theorem placeholder_asymmetry:
  "(\<forall>e\<in>set (load_archive_translations files). upper (snd e) \<noteq> ''TODO'')
   \<and> (\<forall>e\<in>set (load_single_xml_translations file). upper (snd e) \<noteq> ''TODO'')
   \<and> (upper (strip (text_of child)) = ''TODO'' \<longrightarrow> index_child child translations = translations)
   \<and> (map_of existing key = Some v \<and> upper v = ''TODO'' \<and> v \<noteq> ''TODO'' \<longrightarrow>
        def_value existing local_translations archive_translations key = v
        \<and> keyed_value existing local_translations archive_translations key = v)"
proof (intro conjI impI)
  show "\<forall>e\<in>set (load_archive_translations files). upper (snd e) \<noteq> ''TODO''"
    using archive_values by blast
  show "\<forall>e\<in>set (load_single_xml_translations file). upper (snd e) \<noteq> ''TODO''"
    using single_values by blast
  show "index_child child translations = translations"
    if "upper (strip (text_of child)) = ''TODO''"
    using that by (simp add: index_child_def Let_def)
  assume a: "map_of existing key = Some v \<and> upper v = ''TODO'' \<and> v \<noteq> ''TODO''"
  have "upper [] \<noteq> ''TODO''" by (simp add: upper_def)
  with a have "v \<noteq> []" by metis
  with a show "def_value existing local_translations archive_translations key = v"
    and "keyed_value existing local_translations archive_translations key = v"
    by (simp_all add: def_value_kept keyed_value_kept)
qed

theorem placeholder_asymmetry_witness:
  "upper ''todo'' = ''TODO'' \<and> ''todo'' \<noteq> ''TODO''
   \<and> def_value [(''K'', ''todo'')] [(''K'', ''local'')] [(''K'', ''global'')] ''K'' = ''todo''
   \<and> keyed_value [(''K'', ''todo'')] [(''K'', ''local'')] [(''K'', ''global'')] ''K'' = ''todo''
   \<and> index_child (Elem ''K'' (Some '' todo '') []) [(''J'', ''hola'')] = [(''J'', ''hola'')]
   \<and> load_archive_translations
        [Parsed (Elem ''LanguageData'' None
           [Elem ''K'' (Some '' todo '') [], Elem ''J'' (Some '' hola '') []])]
      = [(''J'', ''hola'')]"
proof -
  have u: "upper ''todo'' = ''TODO''" by code_simp
  have s: "upper (strip (text_of (Elem ''K'' (Some '' todo '') []))) = ''TODO''" by code_simp
  have l: "load_archive_translations
        [Parsed (Elem ''LanguageData'' None
           [Elem ''K'' (Some '' todo '') [], Elem ''J'' (Some '' hola '') []])]
      = [(''J'', ''hola'')]" by code_simp
  have m: "map_of [(''K'', ''todo'')] ''K'' = Some ''todo''" by simp
  show ?thesis
    using placeholder_asymmetry [of "[Parsed (Elem ''LanguageData'' None
           [Elem ''K'' (Some '' todo '') [], Elem ''J'' (Some '' hola '') []])]" Missing
        "Elem ''K'' (Some '' todo '') []" "[(''J'', ''hola'')]" "[(''K'', ''todo'')]" "''K''"
        "''todo''" "[(''K'', ''local'')]" "[(''K'', ''global'')]"] u s l m
    by simp
qed

section \<open>Resolution of a value: auxiliary facts\<close>

lemma def_value_resolve: "def_value ex lo gl k = resolve (def_chain lo gl k) ex k"
  unfolding def_value_def resolve_def def_chain_def synonyms_def Let_def by auto

lemma keyed_value_resolve: "keyed_value ex lo gl k = resolve (keyed_chain lo gl k) ex k"
  unfolding keyed_value_def resolve_def keyed_chain_def Let_def by auto

lemma resolve_cong: "map_of ex2 k = map_of ex1 k \<Longrightarrow> resolve c ex2 k = resolve c ex1 k"
  by (simp add: resolve_def dict_get_def)

lemma resolve_stable:
  assumes "map_of ex2 k = Some (resolve c ex1 k)" and "resolve c ex1 k \<noteq> []"
  shows "resolve c ex2 k = resolve c ex1 k"
proof -
  let ?r = "resolve c ex1 k"
  have v2: "dict_get ex2 k ''TODO'' = ?r" using assms(1) by (simp add: dict_get_def)
  show ?thesis
  proof (cases "?r = ''TODO''")
    case False
    then show ?thesis using assms(2) v2 by (simp add: resolve_def [of c ex2])
  next
    case True
    then have "(case c of Some v \<Rightarrow> v | None \<Rightarrow> ''TODO'') = ''TODO''"
      unfolding resolve_def Let_def by (auto split: if_splits option.splits)
    then show ?thesis using True v2 by (simp add: resolve_def [of c ex2])
  qed
qed

lemma map_of_in_values: "map_of d k = Some v \<Longrightarrow> v \<in> snd ` set d"
  by (metis map_of_SomeD image_eqI snd_conv)

lemma resolve_range:
  "resolve c ex k = ''TODO'' \<or> resolve c ex k \<in> snd ` set ex \<or> Some (resolve c ex k) = c"
proof -
  have "dict_get ex k ''TODO'' = ''TODO'' \<or> dict_get ex k ''TODO'' \<in> snd ` set ex"
    by (cases "map_of ex k") (simp_all add: dict_get_def map_of_in_values)
  then show ?thesis
    unfolding resolve_def Let_def by (cases c) auto
qed

lemma has_key_item: "has_key d k \<Longrightarrow> dict_item d k \<in> snd ` set d"
proof -
  assume "has_key d k"
  then obtain v where v: "map_of d k = Some v" by (auto simp: has_key_def)
  then have "dict_item d k = v" by (simp add: dict_item_def)
  with v show ?thesis using map_of_in_values by metis
qed

lemma def_chain_range:
  "def_chain lo gl k = Some v \<Longrightarrow> v \<in> snd ` set lo \<or> v \<in> snd ` set gl"
  unfolding def_chain_def
  by (auto simp: has_key_item find_Some_iff split: if_splits)

lemma keyed_chain_range:
  "keyed_chain lo gl k = Some v \<Longrightarrow> v \<in> snd ` set lo \<or> v \<in> snd ` set gl"
  unfolding keyed_chain_def by (auto simp: has_key_item split: if_splits)


lemma dropWhile_id: "xs = [] \<or> \<not> P (hd xs) \<Longrightarrow> dropWhile P xs = xs"
  by (cases xs) auto

lemma strip_idem: "strip (strip s) = strip s"
proof -
  define t where "t = dropWhile is_space s"
  define u where "u = rev (dropWhile is_space (rev t))"
  have t: "t = [] \<or> \<not> is_space (hd t)"
    unfolding t_def by (metis hd_dropWhile)
  have "rev t = takeWhile is_space (rev t) @ dropWhile is_space (rev t)" by simp
  then have "rev (rev t) = rev (takeWhile is_space (rev t) @ dropWhile is_space (rev t))"
    by (rule arg_cong)
  then have tu: "t = u @ rev (takeWhile is_space (rev t))"
    unfolding u_def by (simp only: rev_rev_ident rev_append)
  have "u = [] \<or> \<not> is_space (hd u)"
  proof (cases u)
    case Nil
    then show ?thesis by simp
  next
    case (Cons a w)
    with tu have "hd t = hd u" by (metis hd_append2 list.distinct(1))
    moreover from Cons tu have "t \<noteq> []" by auto
    ultimately show ?thesis using t by simp
  qed
  then have 1: "dropWhile is_space u = u" by (rule dropWhile_id)
  have "rev u = dropWhile is_space (rev t)" by (simp add: u_def)
  then have "rev u = [] \<or> \<not> is_space (hd (rev u))" by (metis hd_dropWhile)
  then have 2: "dropWhile is_space (rev u) = rev u" by (rule dropWhile_id)
  have su: "strip s = u" by (simp add: strip_def t_def u_def)
  have "strip u = u" by (simp add: strip_def 1 2)
  with su show ?thesis by simp
qed

lemma fold_inv:
  assumes "\<And>c acc. I acc \<Longrightarrow> I (f c acc)" and "I acc"
  shows "I (fold f cs acc)"
  using assms(2) by (induction cs arbitrary: acc) (simp_all add: assms(1))

lemma dict_set_inv:
  assumes "\<forall>e\<in>set d. Q e" and "Q (k, v)"
  shows "\<forall>e\<in>set (dict_set d k v). Q e"
  using assms set_dict_set [of d k v] by blast

lemma index_child_strip:
  assumes "\<forall>e\<in>set tr. strip (snd e) = snd e"
  shows "\<forall>e\<in>set (index_child c tr). strip (snd e) = snd e"
proof (cases "index_child c tr = tr")
  case True
  then show ?thesis using assms by simp
next
  case False
  then have e: "index_child c tr = dict_set tr (tag c) (strip (text_of c))"
    unfolding index_child_def Let_def by (simp split: if_splits)
  have q: "strip (snd (tag c, strip (text_of c))) = snd (tag c, strip (text_of c))"
    by (simp add: strip_idem)
  show ?thesis
    unfolding e
    by (rule dict_set_inv [where Q = "\<lambda>e. strip (snd e) = snd e", OF assms q])
qed

lemma index_file_strip:
  assumes "\<forall>e\<in>set tr. strip (snd e) = snd e"
  shows "\<forall>e\<in>set (index_file f tr). strip (snd e) = snd e"
proof (cases f)
  case (Parsed root)
  have "index_file f tr = fold index_child (children root) tr"
    by (simp add: index_file_def Parsed)
  moreover have "\<forall>e\<in>set (fold index_child (children root) tr). strip (snd e) = snd e"
    by (rule fold_inv [where I = "\<lambda>d. \<forall>e\<in>set d. strip (snd e) = snd e"])
       (use assms index_child_strip in blast)+
  ultimately show ?thesis by (simp only:)
next
  case Missing
  have "index_file f tr = tr" by (simp add: index_file_def Missing)
  then show ?thesis using assms by (simp only:)
next
  case Unparsable
  have "index_file f tr = tr" by (simp add: index_file_def Unparsable)
  then show ?thesis using assms by (simp only:)
qed

lemma archive_strip:
  "\<forall>e\<in>set (load_archive_translations files). strip (snd e) = snd e"
  unfolding load_archive_translations_def
  by (rule fold_inv [where I = "\<lambda>d. \<forall>e\<in>set d. strip (snd e) = snd e"])
     (use index_file_strip in simp_all)

lemma single_strip:
  "\<forall>e\<in>set (load_single_xml_translations f). strip (snd e) = snd e"
  unfolding load_single_xml_translations_def by (rule index_file_strip) simp

lemma def_existing_entries:
  "\<forall>e\<in>set (def_existing f). fst e \<noteq> [] \<and> strip (snd e) = snd e"
proof (cases f)
  case (Parsed root)
  have step: "\<forall>e\<in>set (def_existing_child c d). fst e \<noteq> [] \<and> strip (snd e) = snd e"
    if "\<forall>e\<in>set d. fst e \<noteq> [] \<and> strip (snd e) = snd e" for c d
  proof (cases "def_existing_child c d = d")
    case True
    then show ?thesis using that by simp
  next
    case False
    then have e: "def_existing_child c d = dict_set d (tag c) (strip (text_of c))"
      and t: "tag c \<noteq> []"
      unfolding def_existing_child_def by (simp_all split: if_splits)
    have q: "fst (tag c, strip (text_of c)) \<noteq> []
             \<and> strip (snd (tag c, strip (text_of c))) = snd (tag c, strip (text_of c))"
      using t by (simp add: strip_idem)
    show ?thesis
      unfolding e
      by (rule dict_set_inv [where Q = "\<lambda>e. fst e \<noteq> [] \<and> strip (snd e) = snd e", OF that q])
  qed
  have "\<forall>e\<in>set (fold def_existing_child (children root) []). fst e \<noteq> [] \<and> strip (snd e) = snd e"
  proof (rule fold_inv [where I = "\<lambda>d. \<forall>e\<in>set d. fst e \<noteq> [] \<and> strip (snd e) = snd e"])
    show "\<forall>e\<in>set ([] :: (string, string) dict). fst e \<noteq> [] \<and> strip (snd e) = snd e" by simp
  qed (rule step)
  then show ?thesis by (simp add: def_existing_def Parsed)
qed (simp_all add: def_existing_def)

lemma keyed_existing_entries:
  "\<forall>e\<in>set (keyed_existing f). fst e \<noteq> [] \<and> snd e \<noteq> []"
proof (cases f)
  case (Parsed root)
  have step: "\<forall>e\<in>set (keyed_existing_child c d). fst e \<noteq> [] \<and> snd e \<noteq> []"
    if "\<forall>e\<in>set d. fst e \<noteq> [] \<and> snd e \<noteq> []" for c d
  proof (cases "keyed_existing_child c d = d")
    case True
    then show ?thesis using that by simp
  next
    case False
    then have e: "keyed_existing_child c d = dict_set d (tag c) (text_of c)"
      and t: "tag c \<noteq> []" "text_of c \<noteq> []"
      unfolding keyed_existing_child_def by (simp_all split: if_splits)
    have q: "fst (tag c, text_of c) \<noteq> [] \<and> snd (tag c, text_of c) \<noteq> []"
      using t by simp
    show ?thesis
      unfolding e
      by (rule dict_set_inv [where Q = "\<lambda>e. fst e \<noteq> [] \<and> snd e \<noteq> []", OF that q])
  qed
  have "\<forall>e\<in>set (fold keyed_existing_child (children root) []). fst e \<noteq> [] \<and> snd e \<noteq> []"
  proof (rule fold_inv [where I = "\<lambda>d. \<forall>e\<in>set d. fst e \<noteq> [] \<and> snd e \<noteq> []"])
    show "\<forall>e\<in>set ([] :: (string, string) dict). fst e \<noteq> [] \<and> snd e \<noteq> []" by simp
  qed (rule step)
  then show ?thesis by (simp add: keyed_existing_def Parsed)
qed (simp_all add: keyed_existing_def)

lemma map_of_no_key: "k \<notin> fst ` set d \<Longrightarrow> map_of d k = None"
  by (simp add: map_of_eq_None_iff)

lemma map_of_dict_set': "map_of (dict_set d k v) k' = (if k' = k then Some v else map_of d k')"
  by (simp add: map_of_dict_set)

lemma fold_def_existing_lookup:
  assumes "\<forall>c\<in>set cs. tag c = k \<longrightarrow> text_of c = u"
  shows "map_of (fold def_existing_child cs acc) k =
           (if k \<noteq> [] \<and> u \<noteq> [] \<and> k \<in> tag ` set cs then Some (strip u) else map_of acc k)"
  using assms
proof (induction cs arbitrary: acc)
  case Nil
  then show ?case by simp
next
  case (Cons c cs)
  have ih: "map_of (fold def_existing_child cs (def_existing_child c acc)) k =
           (if k \<noteq> [] \<and> u \<noteq> [] \<and> k \<in> tag ` set cs then Some (strip u)
            else map_of (def_existing_child c acc) k)"
    using Cons.IH Cons.prems by simp
  have c: "map_of (def_existing_child c acc) k =
           (if tag c = k \<and> k \<noteq> [] \<and> u \<noteq> [] then Some (strip u) else map_of acc k)"
    using Cons.prems by (auto simp: def_existing_child_def map_of_dict_set')
  show ?case unfolding fold_simps ih c by auto
qed

lemma fold_keyed_existing_lookup:
  assumes "\<forall>c\<in>set cs. tag c = k \<longrightarrow> text_of c = u"
  shows "map_of (fold keyed_existing_child cs acc) k =
           (if k \<noteq> [] \<and> u \<noteq> [] \<and> k \<in> tag ` set cs then Some u else map_of acc k)"
  using assms
proof (induction cs arbitrary: acc)
  case Nil
  then show ?case by simp
next
  case (Cons c cs)
  have ih: "map_of (fold keyed_existing_child cs (keyed_existing_child c acc)) k =
           (if k \<noteq> [] \<and> u \<noteq> [] \<and> k \<in> tag ` set cs then Some u
            else map_of (keyed_existing_child c acc) k)"
    using Cons.IH Cons.prems by simp
  have c: "map_of (keyed_existing_child c acc) k =
           (if tag c = k \<and> k \<noteq> [] \<and> u \<noteq> [] then Some u else map_of acc k)"
    using Cons.prems by (auto simp: keyed_existing_child_def map_of_dict_set')
  show ?case unfolding fold_simps ih c by auto
qed

lemma dict_set_keys: "set (dict_keys (dict_set d k v)) = insert k (set (dict_keys d))"
  by (auto simp: dict_keys_def dict_set_def update_keys)

lemma fold_def_existing_keys:
  "set (dict_keys (fold def_existing_child cs acc)) \<subseteq> tag ` set cs \<union> set (dict_keys acc)"
proof (induction cs arbitrary: acc)
  case Nil
  then show ?case by simp
next
  case (Cons c cs)
  have "set (dict_keys (def_existing_child c acc)) \<subseteq> insert (tag c) (set (dict_keys acc))"
    by (auto simp: def_existing_child_def dict_set_keys)
  with Cons.IH [of "def_existing_child c acc"] show ?case by auto
qed

lemma fold_keyed_existing_keys:
  "set (dict_keys (fold keyed_existing_child cs acc)) \<subseteq> tag ` set cs \<union> set (dict_keys acc)"
proof (induction cs arbitrary: acc)
  case Nil
  then show ?case by simp
next
  case (Cons c cs)
  have "set (dict_keys (keyed_existing_child c acc)) \<subseteq> insert (tag c) (set (dict_keys acc))"
    by (auto simp: keyed_existing_child_def dict_set_keys)
  with Cons.IH [of "keyed_existing_child c acc"] show ?case by auto
qed

lemma live_simps: "tag (live k v) = k" "text_of (live k v) = v"
  by (simp_all add: live_def text_of_def)

lemma unused_items_Nil: "unused_keys ex used = [] \<Longrightarrow> unused_items ex used = []"
  by (simp add: unused_items_def)

lemma write_entries_cong:
  "\<forall>e\<in>set es. def_value ex2 lo gl (pkey e) = def_value ex1 lo gl (pkey e) \<Longrightarrow>
   write_entries ex2 lo gl es last_def = write_entries ex1 lo gl es last_def"
  by (induction es arbitrary: last_def) simp_all

lemma keyed_entries_cong:
  "\<forall>e\<in>set entries. keyed_value ex2 lo gl (fst e) = keyed_value ex1 lo gl (fst e) \<Longrightarrow>
   map (keyed_entry_items ex2 lo gl) entries = map (keyed_entry_items ex1 lo gl) entries"
  by (simp add: keyed_entry_items_def)


lemma def_second_run_value:
  assumes k: "k \<in> pkey ` set es"
    and ne: "def_value (def_existing f) lo gl k \<noteq> []"
    and lo: "\<forall>e\<in>set lo. strip (snd e) = snd e"
    and gl: "\<forall>e\<in>set gl. strip (snd e) = snd e"
  shows "def_value
           (fold def_existing_child
              (map (\<lambda>e. live (pkey e) (def_value (def_existing f) lo gl (pkey e))) es) [])
           lo gl k
         = def_value (def_existing f) lo gl k"
proof -
  let ?ex1 = "def_existing f"
  let ?r = "def_value ?ex1 lo gl k"
  let ?cs = "map (\<lambda>e. live (pkey e) (def_value ?ex1 lo gl (pkey e))) es"
  let ?ex2 = "fold def_existing_child ?cs []"
  have u: "\<forall>c\<in>set ?cs. tag c = k \<longrightarrow> text_of c = ?r"
    by (auto simp: live_simps)
  have t: "k \<in> tag ` set ?cs"
    using k by (auto simp: live_simps image_image)
  have look: "map_of ?ex2 k = (if k \<noteq> [] then Some (strip ?r) else None)"
    using fold_def_existing_lookup [OF u, of "[]"] ne t by simp
  show ?thesis
  proof (cases "k = []")
    case True
    have "[] \<notin> fst ` set ?ex1" using def_existing_entries [of f] by force
    then have "map_of ?ex1 k = None" using True map_of_no_key by metis
    then have "map_of ?ex2 k = map_of ?ex1 k" using look True by simp
    then show ?thesis unfolding def_value_resolve by (rule resolve_cong)
  next
    case False
    have r: "?r = resolve (def_chain lo gl k) ?ex1 k" by (rule def_value_resolve)
    have fixed: "strip ?r = ?r"
    proof -
      consider "?r = ''TODO''" | "?r \<in> snd ` set ?ex1" | "Some ?r = def_chain lo gl k"
        using resolve_range [of "def_chain lo gl k" ?ex1 k] unfolding r [symmetric] by blast
      then show ?thesis
      proof cases
        case 1
        have "strip ''TODO'' = ''TODO''" by code_simp
        with 1 show ?thesis by simp
      next
        case 2
        then show ?thesis using def_existing_entries [of f] by force
      next
        case 3
        then have "?r \<in> snd ` set lo \<or> ?r \<in> snd ` set gl"
          using def_chain_range [of lo gl k ?r] by simp
        then show ?thesis using lo gl by force
      qed
    qed
    have "map_of ?ex2 k = Some ?r" using look False fixed by simp
    then have "resolve (def_chain lo gl k) ?ex2 k = resolve (def_chain lo gl k) ?ex1 k"
      using ne unfolding r by (rule resolve_stable)
    then show ?thesis unfolding def_value_resolve .
  qed
qed

lemma keyed_second_run_value:
  assumes k: "k \<in> fst ` set entries"
    and lo: "\<forall>e\<in>set lo. snd e \<noteq> []"
    and gl: "\<forall>e\<in>set gl. snd e \<noteq> []"
  shows "keyed_value
           (fold keyed_existing_child
              (map (\<lambda>e. live (fst e) (keyed_value (keyed_existing f) lo gl (fst e))) entries) [])
           lo gl k
         = keyed_value (keyed_existing f) lo gl k"
proof -
  let ?ex1 = "keyed_existing f"
  let ?r = "keyed_value ?ex1 lo gl k"
  let ?cs = "map (\<lambda>e. live (fst e) (keyed_value ?ex1 lo gl (fst e))) entries"
  let ?ex2 = "fold keyed_existing_child ?cs []"
  have r: "?r = resolve (keyed_chain lo gl k) ?ex1 k" by (rule keyed_value_resolve)
  have ne: "?r \<noteq> []"
  proof -
    consider "?r = ''TODO''" | "?r \<in> snd ` set ?ex1" | "Some ?r = keyed_chain lo gl k"
      using resolve_range [of "keyed_chain lo gl k" ?ex1 k] unfolding r [symmetric] by blast
    then show ?thesis
    proof cases
      case 1
      then show ?thesis by simp
    next
      case 2
      then show ?thesis using keyed_existing_entries [of f] by force
    next
      case 3
      then have "?r \<in> snd ` set lo \<or> ?r \<in> snd ` set gl"
        using keyed_chain_range [of lo gl k ?r] by simp
      then show ?thesis using lo gl by force
    qed
  qed
  have u: "\<forall>c\<in>set ?cs. tag c = k \<longrightarrow> text_of c = ?r"
    by (auto simp: live_simps)
  have t: "k \<in> tag ` set ?cs"
    using k by (auto simp: live_simps image_image)
  have look: "map_of ?ex2 k = (if k \<noteq> [] then Some ?r else None)"
    using fold_keyed_existing_lookup [OF u, of "[]"] ne t by simp
  show ?thesis
  proof (cases "k = []")
    case True
    have "[] \<notin> fst ` set ?ex1" using keyed_existing_entries [of f] by force
    then have "map_of ?ex1 k = None" using True map_of_no_key by metis
    then have "map_of ?ex2 k = map_of ?ex1 k" using look True by simp
    then show ?thesis unfolding keyed_value_resolve by (rule resolve_cong)
  next
    case False
    have "map_of ?ex2 k = Some ?r" using look False by simp
    then have "resolve (keyed_chain lo gl k) ?ex2 k = resolve (keyed_chain lo gl k) ?ex1 k"
      using ne unfolding r by (rule resolve_stable)
    then show ?thesis unfolding keyed_value_resolve .
  qed
qed

lemma tags_live: "tag ` set (map (\<lambda>e. live (g e) (h e)) xs) = g ` set xs"
  by (induction xs) (simp_all add: live_simps)

lemma unused_keys_subset:
  "set (dict_keys ex) \<subseteq> set used \<Longrightarrow> unused_keys ex used = []"
  by (auto simp: unused_keys_def filter_empty_conv)

lemma def_value_fresh_nonempty:
  assumes "\<forall>e\<in>set lo. snd e \<noteq> []" and "\<forall>e\<in>set gl. snd e \<noteq> []"
  shows "def_value [] lo gl k \<noteq> []"
proof -
  let ?r = "def_value [] lo gl k"
  have r: "?r = resolve (def_chain lo gl k) [] k" by (rule def_value_resolve)
  consider "?r = ''TODO''" | "Some ?r = def_chain lo gl k"
    using resolve_range [of "def_chain lo gl k" "[]" k] unfolding r [symmetric] by auto
  then show ?thesis
  proof cases
    case 1
    then show ?thesis by simp
  next
    case 2
    then have "?r \<in> snd ` set lo \<or> ?r \<in> snd ` set gl"
      using def_chain_range [of lo gl k ?r] by simp
    then show ?thesis using assms by force
  qed
qed

lemma archive_nonempty: "\<forall>e\<in>set (load_archive_translations files). snd e \<noteq> []"
  using archive_values by blast

lemma single_nonempty: "\<forall>e\<in>set (load_single_xml_translations f). snd e \<noteq> []"
  using single_values by blast

section \<open>Key path deriver: sibling list items\<close>

lemma digit_char_val: "d < 10 \<Longrightarrow> of_char (digit_char d) = 48 + d"
  by (simp add: digit_char_def)

lemma digit_char_not_dot: "d < 10 \<Longrightarrow> digit_char d \<noteq> CHR ''.''"
proof
  assume d: "d < 10" and "digit_char d = CHR ''.''"
  then have "(of_char (digit_char d) :: nat) = of_char CHR ''.''" by simp
  then show False using d by (simp add: digit_char_val)
qed

lemma nat_of_str_of_nat: "nat_of_str (str_of_nat n) = n"
proof (induction n rule: str_of_nat.induct)
  case (1 n)
  show ?case
  proof (cases "n < 10")
    case True
    then show ?thesis
      by (simp add: str_of_nat.simps [of n] nat_of_str_def digit_char_val)
  next
    case False
    have m: "n mod 10 < 10" by simp
    from False 1 have ih: "nat_of_str (str_of_nat (n div 10)) = n div 10" by simp
    have "nat_of_str (str_of_nat n)
        = 10 * nat_of_str (str_of_nat (n div 10)) + (of_char (digit_char (n mod 10)) - 48)"
      using False by (simp add: str_of_nat.simps [of n] nat_of_str_def)
    also have "\<dots> = 10 * (n div 10) + n mod 10"
      unfolding ih digit_char_val [OF m] by simp
    finally show ?thesis by simp
  qed
qed

lemma str_of_nat_inj: "str_of_nat a = str_of_nat b \<Longrightarrow> a = b"
  by (metis nat_of_str_of_nat)

lemma str_of_nat_no_dot: "CHR ''.'' \<notin> set (str_of_nat n)"
proof (induction n rule: str_of_nat.induct)
  case (1 n)
  show ?case
  proof (cases "n < 10")
    case True
    then show ?thesis
      using digit_char_not_dot [of n] by (simp add: str_of_nat.simps [of n])
  next
    case False
    have m: "n mod 10 < 10" by simp
    from False 1 have "CHR ''.'' \<notin> set (str_of_nat (n div 10))" by simp
    then show ?thesis
      using False digit_char_not_dot [OF m] by (simp add: str_of_nat.simps [of n])
  qed
qed

lemma dict_get_set: "dict_get (dict_set d k v) k' dflt = (if k' = k then v else dict_get d k' dflt)"
  by (simp add: dict_get_def map_of_dict_set)

lemma extract_children_parts:
  "extract_children cfg pt nc path cs names ni li
     = concat (map2 (part_entries cfg pt path) cs (child_parts nc cs names ni li))"
proof (induction cs arbitrary: names ni li)
  case Nil
  then show ?case by simp
next
  case (Cons c cs)
  show ?case
  proof (cases names)
    case Nil
    then show ?thesis by simp
  next
    case (Cons name names')
    show ?thesis
      unfolding Cons
      by (simp add: Cons.IH part_entries_def split: prod.splits)
  qed
qed

lemma length_child_parts:
  "length names = length cs \<Longrightarrow> length (child_parts nc cs names ni li) = length cs"
proof (induction cs arbitrary: names ni li)
  case Nil
  then show ?case by simp
next
  case (Cons c cs)
  then obtain name names' where n: "names = name # names'" by (cases names) auto
  with Cons.prems have "length names' = length cs" by simp
  then show ?case unfolding n by (simp add: Cons.IH split: prod.splits)
qed

lemma length_sibling_parts: "length (sibling_parts cs) = length cs"
  by (simp add: sibling_parts_def length_child_parts li_children_names_def)

lemma map2_nth:
  assumes "length xs = length ys"
  shows "map2 f xs ys = map (\<lambda>i. f (xs ! i) (ys ! i)) [0..<length xs]"
proof (rule nth_equalityI)
  show "length (map2 f xs ys) = length (map (\<lambda>i. f (xs ! i) (ys ! i)) [0..<length xs])"
    using assms by simp
  fix i assume "i < length (map2 f xs ys)"
  then have "i < length xs" "i < length ys" using assms by simp_all
  then show "map2 f xs ys ! i = map (\<lambda>i. f (xs ! i) (ys ! i)) [0..<length xs] ! i"
    by simp
qed

lemma extract_recursive_children:
  "extract_recursive cfg (Elem t x cs) path
     = concat (map (child_entries cfg t path cs) [0..<length cs])"
proof -
  have "extract_recursive cfg (Elem t x cs) path
      = concat (map2 (part_entries cfg t path) cs (sibling_parts cs))"
    by (simp add: extract_children_parts sibling_parts_def)
  also have "map2 (part_entries cfg t path) cs (sibling_parts cs)
      = map (child_entries cfg t path cs) [0..<length cs]"
    using map2_nth [of cs "sibling_parts cs" "part_entries cfg t path"]
    by (simp add: length_sibling_parts child_entries_def)
  finally show ?thesis .
qed

lemma fold_count_name:
  "n \<noteq> [] \<Longrightarrow>
   dict_get (fold count_name names acc) n 0
     = dict_get acc n 0 + length (filter (\<lambda>x. name_of x = n) names)"
proof (induction names arbitrary: acc)
  case Nil
  then show ?case by simp
next
  case (Cons a names)
  have "dict_get (count_name a acc) n 0 = dict_get acc n 0 + (if name_of a = n then 1 else 0)"
    using Cons.prems by (auto simp: count_name_def dict_get_set)
  then show ?case using Cons by simp
qed

lemma name_counts_of_count:
  assumes "n \<noteq> []"
  shows "dict_get (name_counts_of cs) n 0
           = length (filter (\<lambda>c. tag c = ''li'' \<and> li_name c = n) cs)"
proof -
  have "length (filter (\<lambda>x. name_of x = n) (li_children_names cs))
      = length (filter (\<lambda>c. tag c = ''li'' \<and> li_name c = n) cs)"
    using assms
    by (induction cs) (auto simp: li_children_names_def li_name_def name_of_def)
  then show ?thesis
    using fold_count_name [OF assms, of "li_children_names cs" "[]"]
    by (simp add: name_counts_of_def dict_get_def)
qed

lemma child_part_li:
  "tag c = ''li'' \<Longrightarrow>
   fst (child_part nc c name ni li) = li_part nc (name_of name) (dict_get ni (name_of name) 0) li"
  by (simp add: child_part_def li_part_def Let_def)

lemma child_part_index:
  "snd (snd (child_part nc c name ni li)) = li + (if tag c = ''li'' then 1 else 0)"
  by (simp add: child_part_def Let_def)

lemma child_part_indices:
  assumes "n \<noteq> []" and "dict_get nc n 0 > 1"
  shows "dict_get (fst (snd (child_part nc c name ni li))) n 0
           = dict_get ni n 0 + (if tag c = ''li'' \<and> name_of name = n then 1 else 0)"
  using assms by (auto simp: child_part_def Let_def dict_get_set)

lemma li_children_names_Cons:
  "li_children_names (c # cs)
     = (if tag c = ''li'' then get_li_name c else None) # li_children_names cs"
  by (simp add: li_children_names_def)

lemma child_parts_Cons:
  "child_parts nc (c # cs) (name # names) ni li ! Suc i
     = (if tag c = ''defName'' then child_parts nc cs names ni li ! i
        else child_parts nc cs names (fst (snd (child_part nc c name ni li)))
               (snd (snd (child_part nc c name ni li))) ! i)"
  by (simp split: prod.splits)

lemma child_parts_0:
  "tag c \<noteq> ''defName'' \<Longrightarrow>
   child_parts nc (c # cs) (name # names) ni li ! 0 = Some (fst (child_part nc c name ni li))"
  by (simp split: prod.splits)

lemma same_before_Suc:
  "same_before (c # cs) (Suc i) n
     = (if tag c = ''li'' \<and> li_name c = n then 1 else 0) + same_before cs i n"
  by (simp add: same_before_def)

lemma li_before_Suc:
  "li_before (c # cs) (Suc i) = (if tag c = ''li'' then 1 else 0) + li_before cs i"
  by (simp add: li_before_def)

lemma child_parts_li:
  assumes "i < length cs" and "tag (cs ! i) = ''li''"
  shows "child_parts nc cs (li_children_names cs) ni li ! i
           = Some (li_part nc (li_name (cs ! i))
                     (dict_get ni (li_name (cs ! i)) 0 + same_before cs i (li_name (cs ! i)))
                     (li + li_before cs i))"
  using assms
proof (induction cs arbitrary: i ni li)
  case Nil
  then show ?case by simp
next
  case (Cons c cs)
  let ?name = "if tag c = ''li'' then get_li_name c else None"
  show ?case
  proof (cases i)
    case 0
    with Cons.prems have li: "tag c = ''li''" by simp
    then have nd: "tag c \<noteq> ''defName''" by simp
    have "name_of ?name = li_name c" using li by (simp add: li_name_def)
    then show ?thesis
      unfolding 0 li_children_names_Cons child_parts_0 [OF nd]
      using li by (simp add: child_part_li same_before_def li_before_def)
  next
    case (Suc i')
    let ?n = "li_name (cs ! i')"
    from Cons.prems Suc have p: "i' < length cs" "tag (cs ! i') = ''li''" by simp_all
    have nth: "(c # cs) ! i = cs ! i'" using Suc by simp
    show ?thesis
    proof (cases "tag c = ''defName''")
      case True
      then have nl: "tag c \<noteq> ''li''" by simp
      show ?thesis
        unfolding Suc li_children_names_Cons child_parts_Cons nth [unfolded Suc]
        using True nl Cons.IH [OF p, of ni li]
        by (simp add: same_before_Suc li_before_Suc)
    next
      case False
      let ?ni' = "fst (snd (child_part nc c ?name ni li))"
      let ?li' = "snd (snd (child_part nc c ?name ni li))"
      have ih: "child_parts nc cs (li_children_names cs) ?ni' ?li' ! i'
           = Some (li_part nc ?n (dict_get ?ni' ?n 0 + same_before cs i' ?n) (?li' + li_before cs i'))"
        by (rule Cons.IH [OF p])
      have l: "?li' + li_before cs i' = li + li_before (c # cs) (Suc i')"
        by (simp add: child_part_index li_before_Suc)
      have nm: "name_of ?name = (if tag c = ''li'' then li_name c else [])"
        by (simp add: li_name_def name_of_def)
      have eq: "li_part nc ?n (dict_get ?ni' ?n 0 + same_before cs i' ?n) (?li' + li_before cs i')
              = li_part nc ?n (dict_get ni ?n 0 + same_before (c # cs) (Suc i') ?n)
                  (li + li_before (c # cs) (Suc i'))"
      proof (cases "?n \<noteq> [] \<and> dict_get nc ?n 0 > 1")
        case True
        then have "dict_get ?ni' ?n 0
            = dict_get ni ?n 0 + (if tag c = ''li'' \<and> name_of ?name = ?n then 1 else 0)"
          using child_part_indices [of ?n nc c ?name ni li] by blast
        then have "dict_get ?ni' ?n 0 + same_before cs i' ?n
            = dict_get ni ?n 0 + same_before (c # cs) (Suc i') ?n"
          using True by (auto simp: same_before_Suc nm)
        then show ?thesis unfolding l by simp
      next
        case False
        then show ?thesis unfolding l by (auto simp: li_part_def)
      qed
      show ?thesis
        unfolding Suc li_children_names_Cons child_parts_Cons nth [unfolded Suc]
        using False ih eq by simp
    qed
  qed
qed

lemma sibling_part_li:
  assumes "i < length cs" and "tag (cs ! i) = ''li''"
  shows "sibling_parts cs ! i
           = Some (li_part (name_counts_of cs) (li_name (cs ! i))
                     (same_before cs i (li_name (cs ! i))) (li_before cs i))"
  using child_parts_li [OF assms, of "name_counts_of cs" "[]" 0]
  by (simp add: sibling_parts_def dict_get_def)

lemma filter_take_less:
  assumes "i < j" and "j \<le> length cs" and "P (cs ! i)"
  shows "length (filter P (take i cs)) < length (filter P (take j cs))"
proof -
  define D where "D = drop (Suc i) (take j cs)"
  have i: "i < length cs" using assms by simp
  have "take j cs = take (Suc i) (take j cs) @ D"
    unfolding D_def by (rule append_take_drop_id [symmetric])
  also have "take (Suc i) (take j cs) = take (Suc i) cs"
    using assms(1) by (simp add: min_def)
  also have "take (Suc i) cs = take i cs @ [cs ! i]"
    using i by (rule take_Suc_conv_app_nth)
  finally have e: "take j cs = (take i cs @ [cs ! i]) @ D" .
  have "length (filter P (take j cs)) = length (filter P ((take i cs @ [cs ! i]) @ D))"
    using e by (rule arg_cong)
  also have "\<dots> = length (filter P (take i cs)) + 1 + length (filter P D)"
    using assms(3) by simp
  finally show ?thesis by simp
qed

lemma takeWhile_part:
  assumes "CHR ''.'' \<notin> set d" and "t = [] \<or> hd t = CHR ''.''"
  shows "takeWhile (\<lambda>c. c \<noteq> CHR ''.'') (d @ t) = d"
proof -
  have "takeWhile (\<lambda>c. c \<noteq> CHR ''.'') t = []" using assms(2) by (cases t) auto
  moreover have "takeWhile (\<lambda>c. c \<noteq> CHR ''.'') (d @ t) = d @ takeWhile (\<lambda>c. c \<noteq> CHR ''.'') t"
    using assms(1) by (intro takeWhile_append2) auto
  ultimately show ?thesis by simp
qed

lemma keys_extend:
  "\<forall>e\<in>set (extract_recursive cfg node path). \<exists>s. fst e = path @ ''.'' @ s"
  "\<forall>e\<in>set (extract_children cfg pt nc path cs names ni li). \<exists>s. fst e = path @ ''.'' @ s"
proof (induction cfg node path and cfg pt nc path cs names ni li
       rule: extract_recursive_extract_children.induct)
  case (1 cfg node_tag node_text node_children current_path)
  then show ?case by simp
next
  case (2 cfg parent_tag name_counts current_path names name_indices li_index)
  then show ?case by simp
next
  case (3 cfg parent_tag name_counts current_path child rest name_indices li_index)
  then show ?case by simp
next
  case (4 cfg parent_tag name_counts current_path child rest name names name_indices li_index)
  show ?case
  proof (cases "tag child = ''defName''")
    case True
    with 4(1) show ?thesis by simp
  next
    case False
    obtain part ni' li' where cp:
      "child_part name_counts child name name_indices li_index = (part, ni', li')"
      by (cases "child_part name_counts child name name_indices li_index") auto
    note ih_rec = 4(2) [OF False cp [symmetric] refl]
    note ih_rest = 4(3) [OF False cp [symmetric] refl]
    have em: "\<forall>e\<in>set (emit_entry cfg parent_tag child (current_path @ ''.'' @ part)).
                \<exists>s. fst e = current_path @ ''.'' @ s"
      by (auto simp: emit_entry_def Let_def)
    have rec: "\<forall>e\<in>set (extract_recursive cfg child (current_path @ ''.'' @ part)).
                \<exists>s. fst e = current_path @ ''.'' @ s"
    proof
      fix e assume "e \<in> set (extract_recursive cfg child (current_path @ ''.'' @ part))"
      then obtain s where "fst e = (current_path @ ''.'' @ part) @ ''.'' @ s"
        using ih_rec by blast
      then have "fst e = current_path @ ''.'' @ (part @ ''.'' @ s)" by simp
      then show "\<exists>s. fst e = current_path @ ''.'' @ s" by blast
    qed
    show ?thesis
      using False em rec ih_rest by (auto simp: cp)
  qed
qed

lemma part_entries_keys:
  assumes "e \<in> set (part_entries cfg pt path c (Some part))"
  shows "\<exists>t. fst e = path @ ''.'' @ part @ t \<and> (t = [] \<or> hd t = CHR ''.'')"
proof -
  from assms consider "e \<in> set (emit_entry cfg pt c (path @ ''.'' @ part))"
    | "e \<in> set (extract_recursive cfg c (path @ ''.'' @ part))"
    by (auto simp: part_entries_def)
  then show ?thesis
  proof cases
    case 1
    then have "fst e = path @ ''.'' @ part @ []"
      by (auto simp: emit_entry_def Let_def split: if_splits)
    then show ?thesis by blast
  next
    case 2
    then obtain s where "fst e = (path @ ''.'' @ part) @ ''.'' @ s"
      using keys_extend(1) by blast
    then have "fst e = path @ ''.'' @ part @ (''.'' @ s) \<and> hd (''.'' @ s) = CHR ''.''" by simp
    then show ?thesis by blast
  qed
qed

lemma same_name_count:
  assumes "i < j" and "j < length cs"
    and "tag (cs ! i) = ''li''" and "tag (cs ! j) = ''li''"
    and "li_name (cs ! i) = n" and "li_name (cs ! j) = n"
  shows "same_before cs i n < same_before cs j n"
    and "1 < length (filter (\<lambda>c. tag c = ''li'' \<and> li_name c = n) cs)"
proof -
  let ?P = "\<lambda>c. tag c = ''li'' \<and> li_name c = n"
  have a: "length (filter ?P (take i cs)) < length (filter ?P (take j cs))"
    using assms by (intro filter_take_less) simp_all
  then show "same_before cs i n < same_before cs j n" by (simp add: same_before_def)
  have "length (filter ?P (take j cs)) < length (filter ?P (take (length cs) cs))"
    using assms by (intro filter_take_less) simp_all
  with a show "1 < length (filter ?P cs)" by simp
qed

lemma li_before_less:
  assumes "i < j" and "j < length cs" and "tag (cs ! i) = ''li''"
  shows "li_before cs i < li_before cs j"
  unfolding li_before_def using assms by (intro filter_take_less) simp_all

lemma sibling_parts_same_name:
  assumes "i < j" and "j < length cs"
    and "tag (cs ! i) = ''li''" and "tag (cs ! j) = ''li''"
    and "li_name (cs ! i) = li_name (cs ! j)"
  shows "\<exists>stem a b. a \<noteq> b
           \<and> sibling_parts cs ! i = Some (stem @ str_of_nat a)
           \<and> sibling_parts cs ! j = Some (stem @ str_of_nat b)
           \<and> (li_name (cs ! i) \<noteq> [] \<longrightarrow>
                stem = li_name (cs ! i) @ ''-''
                \<and> a = same_before cs i (li_name (cs ! i))
                \<and> b = same_before cs j (li_name (cs ! i)))
           \<and> (li_name (cs ! i) = [] \<longrightarrow>
                stem = [] \<and> a = li_before cs i \<and> b = li_before cs j)"
proof -
  let ?n = "li_name (cs ! i)"
  have i: "i < length cs" using assms by simp
  have pi: "sibling_parts cs ! i
      = Some (li_part (name_counts_of cs) ?n (same_before cs i ?n) (li_before cs i))"
    by (rule sibling_part_li [OF i assms(3)])
  have pj: "sibling_parts cs ! j
      = Some (li_part (name_counts_of cs) ?n (same_before cs j ?n) (li_before cs j))"
    using sibling_part_li [OF assms(2) assms(4)] assms(5) by simp
  show ?thesis
  proof (cases "?n = []")
    case True
    have "li_before cs i \<noteq> li_before cs j"
      using li_before_less [OF assms(1) assms(2) assms(3)] by simp
    then show ?thesis
      using pi pj True by (simp add: li_part_def)
  next
    case False
    have c: "1 < length (filter (\<lambda>c. tag c = ''li'' \<and> li_name c = ?n) cs)"
      and l: "same_before cs i ?n < same_before cs j ?n"
      using same_name_count [OF assms(1-4) refl assms(5) [symmetric]] by simp_all
    have "1 < dict_get (name_counts_of cs) ?n 0"
      using c name_counts_of_count [OF False, of cs] by simp
    then have "li_part (name_counts_of cs) ?n a b = (?n @ ''-'') @ str_of_nat a" for a b
      using False by (simp add: li_part_def)
    then show ?thesis
      using pi pj False l by auto
  qed
qed

text \<open>
  C6, as the claim states it, fails: a list item without a name is named by its position
  among the list items, and that numeral is not compared with the names of its siblings.
  An unnamed first item and an item whose \<^verbatim>\<open>def\<close> is \<^verbatim>\<open>0\<close> both get the part
  \<^verbatim>\<open>0\<close>, and one key is emitted twice.
\<close>

theorem position_name_collision_counterexample:
  "sibling_parts
     [Elem ''li'' None [Elem ''label'' (Some ''x'') []],
      Elem ''li'' None [Elem ''def'' (Some ''0'') [], Elem ''label'' (Some ''y'') []]]
     = [Some ''0'', Some ''0'']
   \<and> extract_recursive \<lparr>translatable_tags = [''label''], blacklisted_tags = []\<rparr>
       (Elem ''parts'' None
          [Elem ''li'' None [Elem ''label'' (Some ''x'') []],
           Elem ''li'' None [Elem ''def'' (Some ''0'') [], Elem ''label'' (Some ''y'') []]])
       ''Body.parts''
     = [(''Body.parts.0.label'', ''x''), (''Body.parts.0.label'', ''y'')]"
  by code_simp

text \<open>
  C6 (amended): two list items of one parent with the same name from the label
  attribute or else the reference attribute, or both without such a name, get different
  path parts, and no key emitted for one of them or below it equals a key emitted for
  the other. When they share a non-empty name the part of each is the name, a hyphen and
  the number of earlier list items of that name, so the ordinals count from 0 for every
  name; without a name the part is the position among the list items.
\<close>

theorem disambiguation_uniqueness:
  assumes "i < j" and "j < length cs"
    and "tag (cs ! i) = ''li''" and "tag (cs ! j) = ''li''"
    and "li_name (cs ! i) = li_name (cs ! j)"
  shows "extract_recursive cfg (Elem t x cs) path
           = concat (map (child_entries cfg t path cs) [0..<length cs])
       \<and> sibling_parts cs ! i \<noteq> sibling_parts cs ! j
       \<and> (\<forall>e1\<in>set (child_entries cfg t path cs i).
            \<forall>e2\<in>set (child_entries cfg t path cs j). fst e1 \<noteq> fst e2)
       \<and> (li_name (cs ! i) \<noteq> [] \<longrightarrow>
            sibling_parts cs ! i
              = Some (li_name (cs ! i) @ ''-'' @ str_of_nat (same_before cs i (li_name (cs ! i))))
            \<and> sibling_parts cs ! j
              = Some (li_name (cs ! j) @ ''-'' @ str_of_nat (same_before cs j (li_name (cs ! j)))))
       \<and> (li_name (cs ! i) = [] \<longrightarrow>
            sibling_parts cs ! i = Some (str_of_nat (li_before cs i))
            \<and> sibling_parts cs ! j = Some (str_of_nat (li_before cs j)))"
proof -
  obtain stem a b where ab: "a \<noteq> b"
    and pi: "sibling_parts cs ! i = Some (stem @ str_of_nat a)"
    and pj: "sibling_parts cs ! j = Some (stem @ str_of_nat b)"
    and named: "li_name (cs ! i) \<noteq> [] \<longrightarrow>
                stem = li_name (cs ! i) @ ''-''
                \<and> a = same_before cs i (li_name (cs ! i))
                \<and> b = same_before cs j (li_name (cs ! i))"
    and unnamed: "li_name (cs ! i) = [] \<longrightarrow>
                stem = [] \<and> a = li_before cs i \<and> b = li_before cs j"
    using sibling_parts_same_name [OF assms] by blast
  have neq: "str_of_nat a \<noteq> str_of_nat b" using ab str_of_nat_inj by blast
  have keys: "fst e1 \<noteq> fst e2"
    if e1: "e1 \<in> set (child_entries cfg t path cs i)"
      and e2: "e2 \<in> set (child_entries cfg t path cs j)" for e1 e2
  proof
    assume eq: "fst e1 = fst e2"
    obtain t1 where k1: "fst e1 = path @ ''.'' @ (stem @ str_of_nat a) @ t1"
      and t1: "t1 = [] \<or> hd t1 = CHR ''.''"
      using part_entries_keys [of e1 cfg t path "cs ! i" "stem @ str_of_nat a"] e1
      unfolding child_entries_def pi by blast
    obtain t2 where k2: "fst e2 = path @ ''.'' @ (stem @ str_of_nat b) @ t2"
      and t2: "t2 = [] \<or> hd t2 = CHR ''.''"
      using part_entries_keys [of e2 cfg t path "cs ! j" "stem @ str_of_nat b"] e2
      unfolding child_entries_def pj by blast
    from eq k1 k2 have "str_of_nat a @ t1 = str_of_nat b @ t2" by simp
    then have "takeWhile (\<lambda>c. c \<noteq> CHR ''.'') (str_of_nat a @ t1)
             = takeWhile (\<lambda>c. c \<noteq> CHR ''.'') (str_of_nat b @ t2)" by simp
    then have "str_of_nat a = str_of_nat b"
      unfolding takeWhile_part [OF str_of_nat_no_dot t1] takeWhile_part [OF str_of_nat_no_dot t2] .
    with neq show False by simp
  qed
  show ?thesis
  proof (intro conjI impI ballI)
    show "extract_recursive cfg (Elem t x cs) path
           = concat (map (child_entries cfg t path cs) [0..<length cs])"
      by (rule extract_recursive_children)
    show "sibling_parts cs ! i \<noteq> sibling_parts cs ! j"
      unfolding pi pj using neq by simp
    show "fst e1 \<noteq> fst e2"
      if "e1 \<in> set (child_entries cfg t path cs i)" "e2 \<in> set (child_entries cfg t path cs j)"
      for e1 e2
      using that by (rule keys)
    show "sibling_parts cs ! i
            = Some (li_name (cs ! i) @ ''-'' @ str_of_nat (same_before cs i (li_name (cs ! i))))"
      if "li_name (cs ! i) \<noteq> []"
      using that named pi by simp
    show "sibling_parts cs ! j
            = Some (li_name (cs ! j) @ ''-'' @ str_of_nat (same_before cs j (li_name (cs ! j))))"
      if "li_name (cs ! i) \<noteq> []"
      using that named pj assms(5) by simp
    show "sibling_parts cs ! i = Some (str_of_nat (li_before cs i))"
      if "li_name (cs ! i) = []"
      using that unnamed pi by simp
    show "sibling_parts cs ! j = Some (str_of_nat (li_before cs j))"
      if "li_name (cs ! i) = []"
      using that unnamed pj by simp
  qed
qed


theorem disambiguation_uniqueness_witness:
  "li_name ([Elem ''li'' None [Elem ''def'' (Some ''Arm'') [], Elem ''label'' (Some ''left'') []], Elem ''li'' None [Elem ''def'' (Some ''Arm'') [], Elem ''label'' (Some ''right'') []]] ! 0) = ''Arm''
   \<and> li_name ([Elem ''li'' None [Elem ''def'' (Some ''Arm'') [], Elem ''label'' (Some ''left'') []], Elem ''li'' None [Elem ''def'' (Some ''Arm'') [], Elem ''label'' (Some ''right'') []]] ! 1) = ''Arm''
   \<and> sibling_parts [Elem ''li'' None [Elem ''def'' (Some ''Arm'') [], Elem ''label'' (Some ''left'') []], Elem ''li'' None [Elem ''def'' (Some ''Arm'') [], Elem ''label'' (Some ''right'') []]] ! 0
       \<noteq> sibling_parts [Elem ''li'' None [Elem ''def'' (Some ''Arm'') [], Elem ''label'' (Some ''left'') []], Elem ''li'' None [Elem ''def'' (Some ''Arm'') [], Elem ''label'' (Some ''right'') []]] ! 1
   \<and> sibling_parts [Elem ''li'' None [Elem ''def'' (Some ''Arm'') [], Elem ''label'' (Some ''left'') []], Elem ''li'' None [Elem ''def'' (Some ''Arm'') [], Elem ''label'' (Some ''right'') []]] = [Some ''Arm-0'', Some ''Arm-1'']
   \<and> extract_recursive \<lparr>translatable_tags = [''label''], blacklisted_tags = []\<rparr>
         (Elem ''parts'' None [Elem ''li'' None [Elem ''def'' (Some ''Arm'') [], Elem ''label'' (Some ''left'') []], Elem ''li'' None [Elem ''def'' (Some ''Arm'') [], Elem ''label'' (Some ''right'') []]]) ''Body.parts''
       = [(''Body.parts.Arm-0.label'', ''left''), (''Body.parts.Arm-1.label'', ''right'')]"
proof -
  let ?cs = "[Elem ''li'' None [Elem ''def'' (Some ''Arm'') [], Elem ''label'' (Some ''left'') []], Elem ''li'' None [Elem ''def'' (Some ''Arm'') [], Elem ''label'' (Some ''right'') []]]"
  have h1: "(0::nat) < 1" by simp
  have h2: "1 < length ?cs" by simp
  have h3: "tag (?cs ! 0) = ''li''" by simp
  have h4: "tag (?cs ! 1) = ''li''" by simp
  have n0: "li_name (?cs ! 0) = ''Arm''" by code_simp
  have n1: "li_name (?cs ! 1) = ''Arm''" by code_simp
  have h5: "li_name (?cs ! 0) = li_name (?cs ! 1)" unfolding n0 n1 ..
  have p: "sibling_parts ?cs = [Some ''Arm-0'', Some ''Arm-1'']" by code_simp
  have e: "extract_recursive \<lparr>translatable_tags = [''label''], blacklisted_tags = []\<rparr>
         (Elem ''parts'' None ?cs) ''Body.parts''
       = [(''Body.parts.Arm-0.label'', ''left''), (''Body.parts.Arm-1.label'', ''right'')]"
    by code_simp
  from disambiguation_uniqueness [OF h1 h2 h3 h4 h5, of
      "\<lparr>translatable_tags = [''label''], blacklisted_tags = []\<rparr>" "''parts''" None "''Body.parts''"]
  have "sibling_parts ?cs ! 0 \<noteq> sibling_parts ?cs ! 1" by blast
  with n0 n1 p e show ?thesis by blast
qed

section \<open>Preservation of the old values\<close>

lemma fold_def_existing_last:
  "map_of (fold def_existing_child cs acc) k =
     (case filter (\<lambda>c. tag c = k \<and> text_of c \<noteq> []) cs of
        [] \<Rightarrow> map_of acc k
      | c # xs \<Rightarrow> if k = [] then map_of acc k else Some (strip (text_of (last (c # xs)))))"
proof (induction cs arbitrary: acc)
  case Nil
  then show ?case by simp
next
  case (Cons c cs)
  have c: "map_of (def_existing_child c acc) k =
           (if tag c = k \<and> text_of c \<noteq> [] \<and> k \<noteq> [] then Some (strip (text_of c))
            else map_of acc k)"
    by (auto simp: def_existing_child_def map_of_dict_set')
  show ?case
    unfolding fold_simps Cons.IH c
    by (cases "filter (\<lambda>c. tag c = k \<and> text_of c \<noteq> []) cs") auto
qed

lemma fold_keyed_existing_last:
  "map_of (fold keyed_existing_child cs acc) k =
     (case filter (\<lambda>c. tag c = k \<and> text_of c \<noteq> []) cs of
        [] \<Rightarrow> map_of acc k
      | c # xs \<Rightarrow> if k = [] then map_of acc k else Some (text_of (last (c # xs))))"
proof (induction cs arbitrary: acc)
  case Nil
  then show ?case by simp
next
  case (Cons c cs)
  have c: "map_of (keyed_existing_child c acc) k =
           (if tag c = k \<and> text_of c \<noteq> [] \<and> k \<noteq> [] then Some (text_of c)
            else map_of acc k)"
    by (auto simp: keyed_existing_child_def map_of_dict_set')
  show ?case
    unfolding fold_simps Cons.IH c
    by (cases "filter (\<lambda>c. tag c = k \<and> text_of c \<noteq> []) cs") auto
qed

lemma def_existing_last_text:
  "map_of (def_existing f) key = map_option strip (last_text f key)"
proof (cases f)
  case (Parsed root)
  show ?thesis
    unfolding Parsed def_existing_def last_text_def file_state.case fold_def_existing_last
    by (cases "filter (\<lambda>c. tag c = key \<and> text_of c \<noteq> []) (children root)") auto
qed (simp_all add: def_existing_def last_text_def)

lemma keyed_existing_last_text:
  "map_of (keyed_existing f) key = last_text f key"
proof (cases f)
  case (Parsed root)
  show ?thesis
    unfolding Parsed keyed_existing_def last_text_def file_state.case fold_keyed_existing_last
    by (cases "filter (\<lambda>c. tag c = key \<and> text_of c \<noteq> []) (children root)") auto
qed (simp_all add: keyed_existing_def last_text_def)

lemma bytes_of_item:
  assumes "x \<in> set items"
  shows "\<exists>pre post. file_content items = pre @ render x @ post"
proof -
  from assms obtain a b where "items = a @ x # b" by (meson split_list)
  then have "file_content items = file_content a @ render x @ file_content b"
    by (simp add: file_content_def)
  then show ?thesis by blast
qed

text \<open>
  C1, as the claim states it, fails for DefInjected files, where the old value is read
  with \<^verbatim>\<open>strip\<close>: an old element whose text is \<^verbatim>\<open>TODO\<close> between blanks is not the
  placeholder as a string, yet it is replaced by the archive value, and an old
  translation between blanks is written without them.
\<close>

theorem prior_value_trimmed_counterexample:
  "last_text (Parsed (Elem ''LanguageData'' None [Elem ''Thing.label'' (Some '' TODO '') [], Elem ''Thing.description'' (Some ''  Cuchillo  '') []])) ''Thing.label'' = Some '' TODO ''
   \<and> last_text (Parsed (Elem ''LanguageData'' None [Elem ''Thing.label'' (Some '' TODO '') [], Elem ''Thing.description'' (Some ''  Cuchillo  '') []])) ''Thing.description'' = Some ''  Cuchillo  ''
   \<and> file_content
        (save_translations False ''ThingDef'' [(''Thing.label'', ''Steel Knife''), (''Thing.description'', ''A knife'')]
           (Parsed (Elem ''LanguageData'' None [Elem ''Thing.label'' (Some '' TODO '') [], Elem ''Thing.description'' (Some ''  Cuchillo  '') []]))
           [(''Thing.label'', ''Archivo'')] [] Missing)
       = xml_declaration
         @ ''<LanguageData>\<newline>  \<newline>  <!-- EN: Steel Knife -->\<newline>  <Thing.label>Archivo</Thing.label>\<newline>  <!-- EN: A knife -->\<newline>  <Thing.description>Cuchillo</Thing.description>\<newline>  \<newline></LanguageData>''"
  by code_simp

text \<open>
  C1 (amended): when the value that the old file holds for a key is neither empty nor
  \<^verbatim>\<open>TODO\<close> (for a DefInjected file after \<^verbatim>\<open>strip\<close>, for a Keyed file as it is), the
  bytes written contain the element line of the key with exactly that value, escaped,
  when the key is among the keys written, and the commented record of the key with that
  value otherwise; no element of that key carries another value, whatever the archives
  hold.
\<close>

theorem prior_value_written:
  assumes "v \<noteq> []" and "v \<noteq> ''TODO''"
  shows "(map_option strip (last_text output_file key) = Some v \<longrightarrow>
            (\<forall>w. Element key w \<in> set (save_translations recover def_type entries output_file
                                          archive english local_file) \<longrightarrow> w = v)
          \<and> (key \<in> pkey ` set (final_entries recover def_type entries archive english) \<longrightarrow>
               (\<exists>pre post.
                  file_content (save_translations recover def_type entries output_file
                                  archive english local_file)
                  = pre @ ''  <'' @ key @ ''>'' @ escape v @ ''</'' @ key @ ''>\<newline>'' @ post))
          \<and> (key \<notin> pkey ` set (final_entries recover def_type entries archive english) \<longrightarrow>
               (\<exists>pre post.
                  file_content (save_translations recover def_type entries output_file
                                  archive english local_file)
                  = pre @ ''  <!-- <'' @ key @ ''>'' @ v @ ''</'' @ key @ ''> -->\<newline>'' @ post)))
       \<and> (last_text output_file key = Some v \<longrightarrow>
            (\<forall>w. Element key w \<in> set (save_keyed_translations kentries output_file archive local_file)
                   \<longrightarrow> w = v)
          \<and> (key \<in> fst ` set kentries \<longrightarrow>
               (\<exists>pre post.
                  file_content (save_keyed_translations kentries output_file archive local_file)
                  = pre @ ''  <'' @ key @ ''>'' @ escape v @ ''</'' @ key @ ''>\<newline>'' @ post))
          \<and> (key \<notin> fst ` set kentries \<longrightarrow>
               (\<exists>pre post.
                  file_content (save_keyed_translations kentries output_file archive local_file)
                  = pre @ ''  <!-- <'' @ key @ ''>'' @ v @ ''</'' @ key @ ''> -->\<newline>'' @ post)))"
proof (intro conjI impI allI)
  let ?D = "save_translations recover def_type entries output_file archive english local_file"
  let ?K = "save_keyed_translations kentries output_file archive local_file"
  have el: "render (Element key v) = ''  <'' @ key @ ''>'' @ escape v @ ''</'' @ key @ ''>\<newline>''"
    by simp
  have co: "render (Comment ('' <'' @ key @ ''>'' @ v @ ''</'' @ key @ ''> ''))
              = ''  <!-- <'' @ key @ ''>'' @ v @ ''</'' @ key @ ''> -->\<newline>''"
    by simp
  {
    assume "map_option strip (last_text output_file key) = Some v"
    then have ex: "map_of (def_existing output_file) key = Some v"
      by (simp add: def_existing_last_text)
    have val: "def_value (def_existing output_file) (load_single_xml_translations local_file)
                 archive key = v"
      using ex assms by (rule def_value_kept)
    show "w = v" if "Element key w \<in> set ?D" for w
      using that val by (simp add: save_translations_elements)
    show "\<exists>pre post. file_content ?D
            = pre @ ''  <'' @ key @ ''>'' @ escape v @ ''</'' @ key @ ''>\<newline>'' @ post"
      if "key \<in> pkey ` set (final_entries recover def_type entries archive english)"
    proof -
      have "Element key v \<in> set ?D"
        using that val by (simp add: save_translations_elements)
      from bytes_of_item [OF this] show ?thesis by simp
    qed
    show "\<exists>pre post. file_content ?D
            = pre @ ''  <!-- <'' @ key @ ''>'' @ v @ ''</'' @ key @ ''> -->\<newline>'' @ post"
      if "key \<notin> pkey ` set (final_entries recover def_type entries archive english)"
    proof -
      have "Comment ('' <'' @ key @ ''>'' @ v @ ''</'' @ key @ ''> '') \<in> set ?D"
        using unused_in_save_translations [OF ex that, of local_file] by auto
      from bytes_of_item [OF this] show ?thesis by simp
    qed
  }
  {
    assume "last_text output_file key = Some v"
    then have ex: "map_of (keyed_existing output_file) key = Some v"
      by (simp add: keyed_existing_last_text)
    have val: "keyed_value (keyed_existing output_file) (load_single_xml_translations local_file)
                 archive key = v"
      using ex assms by (rule keyed_value_kept)
    show "w = v" if "Element key w \<in> set ?K" for w
      using that val by (simp add: save_keyed_elements)
    show "\<exists>pre post. file_content ?K
            = pre @ ''  <'' @ key @ ''>'' @ escape v @ ''</'' @ key @ ''>\<newline>'' @ post"
      if "key \<in> fst ` set kentries"
    proof -
      have "Element key v \<in> set ?K"
        using that val by (simp add: save_keyed_elements)
      from bytes_of_item [OF this] show ?thesis by simp
    qed
    show "\<exists>pre post. file_content ?K
            = pre @ ''  <!-- <'' @ key @ ''>'' @ v @ ''</'' @ key @ ''> -->\<newline>'' @ post"
      if "key \<notin> fst ` set kentries"
    proof -
      have "Comment ('' <'' @ key @ ''>'' @ v @ ''</'' @ key @ ''> '') \<in> set ?K"
        using unused_in_save_keyed [OF ex that, of archive local_file] by auto
      from bytes_of_item [OF this] show ?thesis by simp
    qed
  }
qed


theorem prior_value_written_witness:
  "map_option strip (last_text (Parsed (Elem ''LanguageData'' None
       [Elem ''Thing.label'' (Some '' Cuchillo <de> Acero '') []])) ''Thing.label'')
     = Some ''Cuchillo <de> Acero''
   \<and> last_text (Parsed (Elem ''LanguageData'' None
       [Elem ''Thing.label'' (Some ''Cuchillo <de> Acero'') []])) ''Thing.label''
     = Some ''Cuchillo <de> Acero''
   \<and> (\<exists>pre post.
         file_content
           (save_translations False ''ThingDef'' [(''Thing.label'', ''Steel Knife'')]
              (Parsed (Elem ''LanguageData'' None
                 [Elem ''Thing.label'' (Some '' Cuchillo <de> Acero '') []]))
              [(''Thing.label'', ''Archivo'')] [] Missing)
         = pre @ ''  <Thing.label>Cuchillo &lt;de&gt; Acero</Thing.label>\<newline>'' @ post)
   \<and> (\<exists>pre post.
         file_content
           (save_keyed_translations [(''Other'', ''Text'')]
              (Parsed (Elem ''LanguageData'' None
                 [Elem ''Thing.label'' (Some ''Cuchillo <de> Acero'') []]))
              [(''Thing.label'', ''Archivo'')] Missing)
         = pre @ ''  <!-- <Thing.label>Cuchillo <de> Acero</Thing.label> -->\<newline>'' @ post)"
proof -
  let ?v = "''Cuchillo <de> Acero''"
  let ?f = "Parsed (Elem ''LanguageData'' None [Elem ''Thing.label'' (Some '' Cuchillo <de> Acero '') []])"
  let ?g = "Parsed (Elem ''LanguageData'' None [Elem ''Thing.label'' (Some ''Cuchillo <de> Acero'') []])"
  have a: "?v \<noteq> []" "?v \<noteq> ''TODO''" by simp_all
  have d: "map_option strip (last_text ?f ''Thing.label'') = Some ?v" by code_simp
  have k: "last_text ?g ''Thing.label'' = Some ?v" by code_simp
  have m: "''Thing.label'' \<in> pkey ` set (final_entries False ''ThingDef''
              [(''Thing.label'', ''Steel Knife'')] [(''Thing.label'', ''Archivo'')] [])"
    by code_simp
  have n: "''Thing.label'' \<notin> fst ` set [(''Other'', ''Text'')]" by simp
  have e: "escape ?v = ''Cuchillo &lt;de&gt; Acero''" by code_simp
  have 1: "\<exists>pre post.
         file_content
           (save_translations False ''ThingDef'' [(''Thing.label'', ''Steel Knife'')] ?f
              [(''Thing.label'', ''Archivo'')] [] Missing)
         = pre @ ''  <'' @ ''Thing.label'' @ ''>'' @ escape ?v @ ''</'' @ ''Thing.label'' @ ''>\<newline>'' @ post"
    using prior_value_written [OF a, of ?f "''Thing.label''" False "''ThingDef''"
        "[(''Thing.label'', ''Steel Knife'')]" "[(''Thing.label'', ''Archivo'')]" "[]" Missing] d m
    by blast
  have 2: "\<exists>pre post.
         file_content
           (save_keyed_translations [(''Other'', ''Text'')] ?g
              [(''Thing.label'', ''Archivo'')] Missing)
         = pre @ ''  <!-- <'' @ ''Thing.label'' @ ''>'' @ ?v @ ''</'' @ ''Thing.label'' @ ''> -->\<newline>'' @ post"
    using prior_value_written [OF a, of ?g "''Thing.label''" _ _ _ "[(''Thing.label'', ''Archivo'')]"
        _ Missing "[(''Other'', ''Text'')]"] k n
    by blast
  show ?thesis using d k 1 [unfolded e] 2 by simp
qed

section \<open>The fallback chain\<close>

lemma contains_Cons: "contains cs sub \<Longrightarrow> contains (c # cs) sub"
  by simp















section \<open>The records of the unused keys\<close>

lemma after_dashes_length: "after_dashes s = Some t \<Longrightarrow> length t < length s"
  by (induction s arbitrary: t rule: after_dashes.induct) (auto split: if_splits)

















section \<open>Running the extraction twice\<close>

lemma def_existing_child_cong:
  "tag c = tag c' \<Longrightarrow> text_of c = text_of c' \<Longrightarrow> def_existing_child c = def_existing_child c'"
  by (rule ext) (simp add: def_existing_child_def)

lemma keyed_existing_child_cong:
  "tag c = tag c' \<Longrightarrow> text_of c = text_of c' \<Longrightarrow>
   keyed_existing_child c = keyed_existing_child c'"
  by (rule ext) (simp add: keyed_existing_child_def)

lemma fold_def_existing_cong:
  "map (\<lambda>c. (tag c, text_of c)) cs = map (\<lambda>c. (tag c, text_of c)) cs' \<Longrightarrow>
   fold def_existing_child cs acc = fold def_existing_child cs' acc"
proof (induction cs arbitrary: cs' acc)
  case Nil
  then show ?case by simp
next
  case (Cons c cs)
  then obtain c' cs'' where e: "cs' = c' # cs''" by (cases cs') auto
  with Cons.prems have t: "tag c = tag c'" "text_of c = text_of c'"
    and r: "map (\<lambda>c. (tag c, text_of c)) cs = map (\<lambda>c. (tag c, text_of c)) cs''" by simp_all
  show ?case
    unfolding e fold_simps def_existing_child_cong [OF t] by (rule Cons.IH [OF r])
qed

lemma fold_keyed_existing_cong:
  "map (\<lambda>c. (tag c, text_of c)) cs = map (\<lambda>c. (tag c, text_of c)) cs' \<Longrightarrow>
   fold keyed_existing_child cs acc = fold keyed_existing_child cs' acc"
proof (induction cs arbitrary: cs' acc)
  case Nil
  then show ?case by simp
next
  case (Cons c cs)
  then obtain c' cs'' where e: "cs' = c' # cs''" by (cases cs') auto
  with Cons.prems have t: "tag c = tag c'" "text_of c = text_of c'"
    and r: "map (\<lambda>c. (tag c, text_of c)) cs = map (\<lambda>c. (tag c, text_of c)) cs''" by simp_all
  show ?case
    unfolding e fold_simps keyed_existing_child_cong [OF t] by (rule Cons.IH [OF r])
qed

lemma live_elements_append: "live_elements (xs @ ys) = live_elements xs @ live_elements ys"
  by (simp add: live_elements_def)

lemma live_elements_write_entries:
  "live_elements (write_entries ex lo gl es last_def)
     = map (\<lambda>e. (pkey e, def_value ex lo gl (pkey e))) es"
  by (induction es arbitrary: last_def) (simp_all add: live_elements_def en_comment_def)

lemma live_elements_keyed_entries:
  "live_elements (concat (map (keyed_entry_items ex lo gl) entries))
     = map (\<lambda>e. (fst e, keyed_value ex lo gl (fst e))) entries"
  by (induction entries)
     (simp_all add: live_elements_def en_comment_def keyed_entry_items_def)

lemma live_elements_unused: "live_elements (unused_items ex used) = []"
  by (auto simp: live_elements_def unused_items_def unused_comment_def)

lemma live_elements_save_translations:
  "live_elements (save_translations recover def_type entries output_file gl english local_file)
     = map (\<lambda>e. (pkey e, def_value (def_existing output_file)
                             (load_single_xml_translations local_file) gl (pkey e)))
         (final_entries recover def_type entries gl english)"
  unfolding save_translations_def Let_def live_elements_append live_elements_write_entries
    live_elements_unused
  by (simp add: live_elements_def)

lemma live_elements_save_keyed:
  "live_elements (save_keyed_translations entries output_file gl local_file)
     = map (\<lambda>e. (fst e, keyed_value (keyed_existing output_file)
                            (load_single_xml_translations local_file) gl (fst e))) entries"
  unfolding save_keyed_translations_def Let_def live_elements_append live_elements_keyed_entries
    live_elements_unused
  by (simp add: live_elements_def)

lemma tag_text_live: "map (\<lambda>c. (tag c, text_of c)) (map (\<lambda>e. live (g e) (h e)) xs) = map (\<lambda>e. (g e, h e)) xs"
  by (simp add: live_simps)

lemma def_existing_reads_back:
  assumes "reads_back (save_translations recover def_type entries output_file gl english local_file) f2"
  shows "def_existing f2
           = fold def_existing_child
               (map (\<lambda>e. live (pkey e)
                       (def_value (def_existing output_file)
                          (load_single_xml_translations local_file) gl (pkey e)))
                  (final_entries recover def_type entries gl english)) []"
proof -
  from assms obtain root where f2: "f2 = Parsed root"
    and cs: "map (\<lambda>c. (tag c, text_of c)) (children root)
           = live_elements (save_translations recover def_type entries output_file gl english
                              local_file)"
    by (cases f2) (auto simp: reads_back_def)
  have "map (\<lambda>c. (tag c, text_of c)) (children root)
      = map (\<lambda>c. (tag c, text_of c))
          (map (\<lambda>e. live (pkey e)
                  (def_value (def_existing output_file)
                     (load_single_xml_translations local_file) gl (pkey e)))
             (final_entries recover def_type entries gl english))"
    unfolding cs live_elements_save_translations tag_text_live ..
  then show ?thesis
    unfolding f2 def_existing_def file_state.case by (rule fold_def_existing_cong)
qed

lemma keyed_existing_reads_back:
  assumes "reads_back (save_keyed_translations entries output_file gl local_file) f2"
  shows "keyed_existing f2
           = fold keyed_existing_child
               (map (\<lambda>e. live (fst e)
                       (keyed_value (keyed_existing output_file)
                          (load_single_xml_translations local_file) gl (fst e)))
                  entries) []"
proof -
  from assms obtain root where f2: "f2 = Parsed root"
    and cs: "map (\<lambda>c. (tag c, text_of c)) (children root)
           = live_elements (save_keyed_translations entries output_file gl local_file)"
    by (cases f2) (auto simp: reads_back_def)
  have "map (\<lambda>c. (tag c, text_of c)) (children root)
      = map (\<lambda>c. (tag c, text_of c))
          (map (\<lambda>e. live (fst e)
                  (keyed_value (keyed_existing output_file)
                     (load_single_xml_translations local_file) gl (fst e)))
             entries)"
    unfolding cs live_elements_save_keyed tag_text_live ..
  then show ?thesis
    unfolding f2 keyed_existing_def file_state.case by (rule fold_keyed_existing_cong)
qed

lemma def_second_run_items:
  assumes rb: "reads_back (save_translations recover def_type entries output_file gl english
                             local_file) f2"
    and orph: "unused_keys (def_existing output_file)
                   (map pkey (final_entries recover def_type entries gl english)) = []"
    and ne: "\<forall>e\<in>set (final_entries recover def_type entries gl english).
               def_value (def_existing output_file) (load_single_xml_translations local_file) gl
                 (pkey e) \<noteq> []"
    and gl: "\<forall>e\<in>set gl. strip (snd e) = snd e"
  shows "save_translations recover def_type entries f2 gl english local_file
         = save_translations recover def_type entries output_file gl english local_file"
proof -
  let ?lo = "load_single_xml_translations local_file"
  let ?es = "final_entries recover def_type entries gl english"
  let ?ex1 = "def_existing output_file"
  let ?cs = "map (\<lambda>e. live (pkey e) (def_value ?ex1 ?lo gl (pkey e))) ?es"
  let ?ex2 = "fold def_existing_child ?cs []"
  have re: "def_existing f2 = ?ex2" by (rule def_existing_reads_back [OF rb])
  have vals: "\<forall>e\<in>set ?es. def_value ?ex2 ?lo gl (pkey e) = def_value ?ex1 ?lo gl (pkey e)"
  proof
    fix e assume e: "e \<in> set ?es"
    then have k: "pkey e \<in> pkey ` set ?es" by simp
    from ne e have n: "def_value ?ex1 ?lo gl (pkey e) \<noteq> []" by blast
    show "def_value ?ex2 ?lo gl (pkey e) = def_value ?ex1 ?lo gl (pkey e)"
      by (rule def_second_run_value [OF k n single_strip gl])
  qed
  have w: "write_entries ?ex2 ?lo gl ?es None = write_entries ?ex1 ?lo gl ?es None"
    using vals by (rule write_entries_cong)
  have "set (dict_keys ?ex2) \<subseteq> tag ` set ?cs"
    using fold_def_existing_keys [of ?cs "[]"] by (simp add: dict_keys_def)
  then have "set (dict_keys ?ex2) \<subseteq> set (map pkey ?es)"
    unfolding tags_live by simp
  then have u2: "unused_items ?ex2 (map pkey ?es) = []"
    using unused_keys_subset unused_items_Nil by blast
  have u1: "unused_items ?ex1 (map pkey ?es) = []"
    using orph by (rule unused_items_Nil)
  show ?thesis
    unfolding save_translations_def [of _ _ _ f2] re Let_def w u2
    unfolding save_translations_def Let_def u1 ..
qed

lemma keyed_second_run_items:
  assumes rb: "reads_back (save_keyed_translations entries output_file gl local_file) f2"
    and orph: "unused_keys (keyed_existing output_file) (map fst entries) = []"
    and gl: "\<forall>e\<in>set gl. snd e \<noteq> []"
  shows "save_keyed_translations entries f2 gl local_file
         = save_keyed_translations entries output_file gl local_file"
proof -
  let ?lo = "load_single_xml_translations local_file"
  let ?ex1 = "keyed_existing output_file"
  let ?cs = "map (\<lambda>e. live (fst e) (keyed_value ?ex1 ?lo gl (fst e))) entries"
  let ?ex2 = "fold keyed_existing_child ?cs []"
  have re: "keyed_existing f2 = ?ex2" by (rule keyed_existing_reads_back [OF rb])
  have lo: "\<forall>e\<in>set ?lo. snd e \<noteq> []" using single_values by blast
  have vals: "\<forall>e\<in>set entries. keyed_value ?ex2 ?lo gl (fst e) = keyed_value ?ex1 ?lo gl (fst e)"
  proof
    fix e assume e: "e \<in> set entries"
    then have k: "fst e \<in> fst ` set entries" by simp
    show "keyed_value ?ex2 ?lo gl (fst e) = keyed_value ?ex1 ?lo gl (fst e)"
      by (rule keyed_second_run_value [OF k lo gl])
  qed
  have w: "map (keyed_entry_items ?ex2 ?lo gl) entries = map (keyed_entry_items ?ex1 ?lo gl) entries"
    using vals by (rule keyed_entries_cong)
  have "set (dict_keys ?ex2) \<subseteq> tag ` set ?cs"
    using fold_keyed_existing_keys [of ?cs "[]"] by (simp add: dict_keys_def)
  then have "set (dict_keys ?ex2) \<subseteq> set (map fst entries)"
    unfolding tags_live by simp
  then have u2: "unused_items ?ex2 (map fst entries) = []"
    using unused_keys_subset unused_items_Nil by blast
  have u1: "unused_items ?ex1 (map fst entries) = []"
    using orph by (rule unused_items_Nil)
  show ?thesis
    unfolding save_keyed_translations_def [of _ f2] re Let_def w u2
    unfolding save_keyed_translations_def Let_def u1 ..
qed

text \<open>
  C2, as the claim states it, fails: when the first run finds an old file with a key
  that is no longer written, it writes the commented record of that key; the second run
  reads the output of the first, where the record is a comment, and writes a document
  without it. The second file below is the first document as the parser returns it.
\<close>

theorem second_run_counterexample:
  "reads_back (save_translations False ''ThingDef'' [(''Knife.label'', ''Steel Knife'')] (Parsed (Elem ''LanguageData'' None [Elem ''Knife.label'' (Some ''Cuchillo'') [], Elem ''Old.label'' (Some ''Viejo'') []])) (load_archive_translations []) [] Missing) (Parsed (Elem ''LanguageData'' None [Elem ''Knife.label'' (Some ''Cuchillo'') []]))
   \<and> file_content (save_translations False ''ThingDef'' [(''Knife.label'', ''Steel Knife'')] (Parsed (Elem ''LanguageData'' None [Elem ''Knife.label'' (Some ''Cuchillo'') [], Elem ''Old.label'' (Some ''Viejo'') []])) (load_archive_translations []) [] Missing)
       = xml_declaration
         @ ''<LanguageData>\<newline>  \<newline>  <!-- EN: Steel Knife -->\<newline>  <Knife.label>Cuchillo</Knife.label>\<newline>\<newline>  <!-- INUTILIZADO -->\<newline>  <!-- <Old.label>Viejo</Old.label> -->\<newline>  \<newline></LanguageData>''
   \<and> file_content (save_translations False ''ThingDef'' [(''Knife.label'', ''Steel Knife'')] (Parsed (Elem ''LanguageData'' None [Elem ''Knife.label'' (Some ''Cuchillo'') []])) (load_archive_translations []) [] Missing)
       = xml_declaration
         @ ''<LanguageData>\<newline>  \<newline>  <!-- EN: Steel Knife -->\<newline>  <Knife.label>Cuchillo</Knife.label>\<newline>  \<newline></LanguageData>''"
  by code_simp

text \<open>
  C2 (amended): with the entries and the archives unchanged, the second run writes the
  same bytes as the first whenever the file it reads is the first document read back
  without change (\<open>reads_back\<close>), and the first run wrote no commented record of an
  unused key and no empty element; the last two conditions hold whenever the first run
  found no old output file.
\<close>

theorem second_run_same_bytes:
  "(reads_back (save_translations recover def_type entries output_file
                  (load_archive_translations files) english local_file) f2
    \<and> unused_keys (def_existing output_file)
        (map pkey (final_entries recover def_type entries (load_archive_translations files)
                     english)) = []
    \<and> list_all (\<lambda>e. def_value (def_existing output_file)
                       (load_single_xml_translations local_file)
                       (load_archive_translations files) (pkey e) \<noteq> [])
        (final_entries recover def_type entries (load_archive_translations files) english)
    \<longrightarrow> file_content
          (save_translations recover def_type entries f2
             (load_archive_translations files) english local_file)
        = file_content
            (save_translations recover def_type entries output_file
               (load_archive_translations files) english local_file))
   \<and> (reads_back (save_keyed_translations kentries output_file
                    (load_archive_translations files) local_file) f2
     \<and> unused_keys (keyed_existing output_file) (map fst kentries) = []
    \<longrightarrow> file_content
          (save_keyed_translations kentries f2 (load_archive_translations files) local_file)
        = file_content
            (save_keyed_translations kentries output_file
               (load_archive_translations files) local_file))
   \<and> (reads_back (save_translations recover def_type entries Missing
                    (load_archive_translations files) english local_file) f2
    \<longrightarrow> file_content
          (save_translations recover def_type entries f2
             (load_archive_translations files) english local_file)
        = file_content
            (save_translations recover def_type entries Missing
               (load_archive_translations files) english local_file))
   \<and> (reads_back (save_keyed_translations kentries Missing
                    (load_archive_translations files) local_file) f2
    \<longrightarrow> file_content
          (save_keyed_translations kentries f2 (load_archive_translations files) local_file)
        = file_content
            (save_keyed_translations kentries Missing
               (load_archive_translations files) local_file))"
proof (intro conjI impI)
  let ?gl = "load_archive_translations files"
  let ?es = "final_entries recover def_type entries ?gl english"
  have m: "def_existing Missing = []" "keyed_existing Missing = []"
    by (simp_all add: def_existing_def keyed_existing_def)
  have no: "unused_keys [] used = []" for used
    by (simp add: unused_keys_def dict_keys_def)
  show "file_content (save_translations recover def_type entries f2 ?gl english local_file)
        = file_content (save_translations recover def_type entries output_file ?gl english
                          local_file)"
    if h: "reads_back (save_translations recover def_type entries output_file ?gl english
                         local_file) f2
        \<and> unused_keys (def_existing output_file) (map pkey ?es) = []
        \<and> list_all (\<lambda>e. def_value (def_existing output_file)
                           (load_single_xml_translations local_file) ?gl (pkey e) \<noteq> []) ?es"
  proof -
    from h have rb: "reads_back (save_translations recover def_type entries output_file ?gl
                                   english local_file) f2"
      and o: "unused_keys (def_existing output_file) (map pkey ?es) = []"
      and ne: "\<forall>e\<in>set ?es. def_value (def_existing output_file)
                  (load_single_xml_translations local_file) ?gl (pkey e) \<noteq> []"
      by (simp_all add: list_all_iff)
    show ?thesis
      using def_second_run_items [OF rb o ne archive_strip] by (rule arg_cong)
  qed
  show "file_content (save_keyed_translations kentries f2 ?gl local_file)
        = file_content (save_keyed_translations kentries output_file ?gl local_file)"
    if h: "reads_back (save_keyed_translations kentries output_file ?gl local_file) f2
        \<and> unused_keys (keyed_existing output_file) (map fst kentries) = []"
    using keyed_second_run_items [OF conjunct1 [OF h] conjunct2 [OF h] archive_nonempty]
    by (rule arg_cong)
  show "file_content (save_translations recover def_type entries f2 ?gl english local_file)
        = file_content (save_translations recover def_type entries Missing ?gl english local_file)"
    if rb: "reads_back (save_translations recover def_type entries Missing ?gl english
                          local_file) f2"
  proof -
    have ne: "\<forall>e\<in>set ?es. def_value (def_existing Missing)
                (load_single_xml_translations local_file) ?gl (pkey e) \<noteq> []"
      unfolding m using def_value_fresh_nonempty [OF single_nonempty archive_nonempty] by blast
    have o: "unused_keys (def_existing Missing) (map pkey ?es) = []"
      unfolding m by (rule no)
    show ?thesis
      using def_second_run_items [OF rb o ne archive_strip] by (rule arg_cong)
  qed
  show "file_content (save_keyed_translations kentries f2 ?gl local_file)
        = file_content (save_keyed_translations kentries Missing ?gl local_file)"
    if rb: "reads_back (save_keyed_translations kentries Missing ?gl local_file) f2"
  proof -
    have ok: "unused_keys (keyed_existing Missing) (map fst kentries) = []"
      unfolding m by (rule no)
    show ?thesis
      using keyed_second_run_items [OF rb ok archive_nonempty] by (rule arg_cong)
  qed
qed

theorem second_run_same_bytes_witness:
  "reads_back (save_translations False ''ThingDef'' [(''Knife.label'', ''Steel Knife''), (''Knife.description'', ''A knife'')] (Parsed (Elem ''LanguageData'' None [Elem ''Knife.label'' (Some ''Cuchillo'') []])) (load_archive_translations [Parsed (Elem ''LanguageData'' None [Elem ''Knife.description'' (Some '' Un cuchillo '') []])]) [] Missing) (Parsed (Elem ''LanguageData'' None [Elem ''Knife.label'' (Some ''Cuchillo'') [], Elem ''Knife.description'' (Some ''Un cuchillo'') []]))
   \<and> unused_keys (def_existing (Parsed (Elem ''LanguageData'' None [Elem ''Knife.label'' (Some ''Cuchillo'') []]))) (map pkey (final_entries False ''ThingDef'' [(''Knife.label'', ''Steel Knife''), (''Knife.description'', ''A knife'')] (load_archive_translations [Parsed (Elem ''LanguageData'' None [Elem ''Knife.description'' (Some '' Un cuchillo '') []])]) [])) = []
   \<and> reads_back (save_keyed_translations [(''Knife.label'', ''Steel Knife'')] (Parsed (Elem ''LanguageData'' None [Elem ''Knife.label'' (Some ''Cuchillo'') []])) (load_archive_translations [Parsed (Elem ''LanguageData'' None [Elem ''Knife.description'' (Some '' Un cuchillo '') []])]) Missing) (Parsed (Elem ''LanguageData'' None [Elem ''Knife.label'' (Some ''Cuchillo'') []]))
   \<and> unused_keys (keyed_existing (Parsed (Elem ''LanguageData'' None [Elem ''Knife.label'' (Some ''Cuchillo'') []]))) (map fst [(''Knife.label'', ''Steel Knife'')]) = []
   \<and> file_content (save_translations False ''ThingDef'' [(''Knife.label'', ''Steel Knife''), (''Knife.description'', ''A knife'')] (Parsed (Elem ''LanguageData'' None [Elem ''Knife.label'' (Some ''Cuchillo'') [], Elem ''Knife.description'' (Some ''Un cuchillo'') []])) (load_archive_translations [Parsed (Elem ''LanguageData'' None [Elem ''Knife.description'' (Some '' Un cuchillo '') []])]) [] Missing) = file_content (save_translations False ''ThingDef'' [(''Knife.label'', ''Steel Knife''), (''Knife.description'', ''A knife'')] (Parsed (Elem ''LanguageData'' None [Elem ''Knife.label'' (Some ''Cuchillo'') []])) (load_archive_translations [Parsed (Elem ''LanguageData'' None [Elem ''Knife.description'' (Some '' Un cuchillo '') []])]) [] Missing)
   \<and> file_content (save_keyed_translations [(''Knife.label'', ''Steel Knife'')] (Parsed (Elem ''LanguageData'' None [Elem ''Knife.label'' (Some ''Cuchillo'') []])) (load_archive_translations [Parsed (Elem ''LanguageData'' None [Elem ''Knife.description'' (Some '' Un cuchillo '') []])]) Missing) = file_content (save_keyed_translations [(''Knife.label'', ''Steel Knife'')] (Parsed (Elem ''LanguageData'' None [Elem ''Knife.label'' (Some ''Cuchillo'') []])) (load_archive_translations [Parsed (Elem ''LanguageData'' None [Elem ''Knife.description'' (Some '' Un cuchillo '') []])]) Missing)"
proof -
  have h1: "reads_back (save_translations False ''ThingDef'' [(''Knife.label'', ''Steel Knife''), (''Knife.description'', ''A knife'')] (Parsed (Elem ''LanguageData'' None [Elem ''Knife.label'' (Some ''Cuchillo'') []])) (load_archive_translations [Parsed (Elem ''LanguageData'' None [Elem ''Knife.description'' (Some '' Un cuchillo '') []])]) [] Missing) (Parsed (Elem ''LanguageData'' None [Elem ''Knife.label'' (Some ''Cuchillo'') [], Elem ''Knife.description'' (Some ''Un cuchillo'') []]))" by code_simp
  have h2: "unused_keys (def_existing (Parsed (Elem ''LanguageData'' None [Elem ''Knife.label'' (Some ''Cuchillo'') []]))) (map pkey (final_entries False ''ThingDef'' [(''Knife.label'', ''Steel Knife''), (''Knife.description'', ''A knife'')] (load_archive_translations [Parsed (Elem ''LanguageData'' None [Elem ''Knife.description'' (Some '' Un cuchillo '') []])]) [])) = []" by code_simp
  have h3: "list_all (\<lambda>e. def_value (def_existing (Parsed (Elem ''LanguageData'' None [Elem ''Knife.label'' (Some ''Cuchillo'') []]))) (load_single_xml_translations Missing) (load_archive_translations [Parsed (Elem ''LanguageData'' None [Elem ''Knife.description'' (Some '' Un cuchillo '') []])]) (pkey e) \<noteq> []) (final_entries False ''ThingDef'' [(''Knife.label'', ''Steel Knife''), (''Knife.description'', ''A knife'')] (load_archive_translations [Parsed (Elem ''LanguageData'' None [Elem ''Knife.description'' (Some '' Un cuchillo '') []])]) [])" by code_simp
  have k1: "reads_back (save_keyed_translations [(''Knife.label'', ''Steel Knife'')] (Parsed (Elem ''LanguageData'' None [Elem ''Knife.label'' (Some ''Cuchillo'') []])) (load_archive_translations [Parsed (Elem ''LanguageData'' None [Elem ''Knife.description'' (Some '' Un cuchillo '') []])]) Missing) (Parsed (Elem ''LanguageData'' None [Elem ''Knife.label'' (Some ''Cuchillo'') []]))" by code_simp
  have k2: "unused_keys (keyed_existing (Parsed (Elem ''LanguageData'' None [Elem ''Knife.label'' (Some ''Cuchillo'') []]))) (map fst [(''Knife.label'', ''Steel Knife'')]) = []" by code_simp
  have 1: "file_content (save_translations False ''ThingDef'' [(''Knife.label'', ''Steel Knife''), (''Knife.description'', ''A knife'')] (Parsed (Elem ''LanguageData'' None [Elem ''Knife.label'' (Some ''Cuchillo'') [], Elem ''Knife.description'' (Some ''Un cuchillo'') []])) (load_archive_translations [Parsed (Elem ''LanguageData'' None [Elem ''Knife.description'' (Some '' Un cuchillo '') []])]) [] Missing) = file_content (save_translations False ''ThingDef'' [(''Knife.label'', ''Steel Knife''), (''Knife.description'', ''A knife'')] (Parsed (Elem ''LanguageData'' None [Elem ''Knife.label'' (Some ''Cuchillo'') []])) (load_archive_translations [Parsed (Elem ''LanguageData'' None [Elem ''Knife.description'' (Some '' Un cuchillo '') []])]) [] Missing)"
    using second_run_same_bytes [of False "''ThingDef''" "[(''Knife.label'', ''Steel Knife''), (''Knife.description'', ''A knife'')]" "Parsed (Elem ''LanguageData'' None [Elem ''Knife.label'' (Some ''Cuchillo'') []])" "[Parsed (Elem ''LanguageData'' None [Elem ''Knife.description'' (Some '' Un cuchillo '') []])]" "[]" Missing "Parsed (Elem ''LanguageData'' None [Elem ''Knife.label'' (Some ''Cuchillo'') [], Elem ''Knife.description'' (Some ''Un cuchillo'') []])"] h1 h2 h3
    by blast
  have 2: "file_content (save_keyed_translations [(''Knife.label'', ''Steel Knife'')] (Parsed (Elem ''LanguageData'' None [Elem ''Knife.label'' (Some ''Cuchillo'') []])) (load_archive_translations [Parsed (Elem ''LanguageData'' None [Elem ''Knife.description'' (Some '' Un cuchillo '') []])]) Missing) = file_content (save_keyed_translations [(''Knife.label'', ''Steel Knife'')] (Parsed (Elem ''LanguageData'' None [Elem ''Knife.label'' (Some ''Cuchillo'') []])) (load_archive_translations [Parsed (Elem ''LanguageData'' None [Elem ''Knife.description'' (Some '' Un cuchillo '') []])]) Missing)"
    using second_run_same_bytes [of _ _ _ "Parsed (Elem ''LanguageData'' None [Elem ''Knife.label'' (Some ''Cuchillo'') []])" "[Parsed (Elem ''LanguageData'' None [Elem ''Knife.description'' (Some '' Un cuchillo '') []])]" _ Missing "Parsed (Elem ''LanguageData'' None [Elem ''Knife.label'' (Some ''Cuchillo'') []])" "[(''Knife.label'', ''Steel Knife'')]"] k1 k2
    by blast
  show ?thesis using h1 h2 k1 k2 1 2 by blast
qed

end
